theory Spec2Isabelle
  imports Main "HOL-Library.Sublist"
begin

section \<open>JavaScript strings\<close>

text \<open>
  A JavaScript string is a sequence of UTF-16 code units, and \<open>length\<close>, \<open>slice\<close>,
  \<open>startsWith\<close> and the regular expressions of \<open>server.js\<close> all work on code units.
  A string is therefore a list of code units (natural numbers); \<open>js\<close> embeds an ASCII
  literal. \<open>startsWith\<close> is \<open>prefix\<close>, \<open>endsWith\<close> is \<open>suffix\<close> and
  \<open>includes\<close> is \<open>sublist\<close>.
\<close>

type_synonym jsstring = "nat list"

definition js :: "string \<Rightarrow> jsstring" where
  "js s = map of_char s"

text \<open>
  \<open>toLowerCase\<close>, exact on ASCII: the letters A-Z move to a-z. Code units outside ASCII
  are left as they are (the Unicode case mapping is not part of this development); the
  hostnames of http and https URLs are ASCII.
\<close>

definition lowerUnit :: "nat \<Rightarrow> nat" where
  "lowerUnit c = (if 65 \<le> c \<and> c \<le> 90 then c + 32 else c)"

definition toLowerCase :: "jsstring \<Rightarrow> jsstring" where
  "toLowerCase s = map lowerUnit s"

text \<open>
  The class \<open>\s\<close> of a JavaScript regular expression, which is also what \<open>trim\<close>
  removes: WhiteSpace and LineTerminator code units.
\<close>

definition isSpace :: "nat \<Rightarrow> bool" where
  "isSpace c = ((9 \<le> c \<and> c \<le> 13) \<or> c = 32 \<or> c = 160 \<or> c = 5760
                \<or> (8192 \<le> c \<and> c \<le> 8202) \<or> c = 8232 \<or> c = 8233 \<or> c = 8239
                \<or> c = 8287 \<or> c = 12288 \<or> c = 65279)"

definition trim :: "jsstring \<Rightarrow> jsstring" where
  "trim s = rev (dropWhile isSpace (rev (dropWhile isSpace s)))"

text \<open>\<open>s.split(sep)\<close> for a separator of one code unit.\<close>

fun split :: "nat \<Rightarrow> jsstring \<Rightarrow> jsstring list" where
  "split sep [] = [[]]"
| "split sep (c # cs) =
     (if c = sep then [] # split sep cs
      else (case split sep cs of [] \<Rightarrow> [[c]] | p # ps \<Rightarrow> (c # p) # ps))"

text \<open>\<open>s.replace(pat, rep)\<close> for a string pattern: the first occurrence only.\<close>

fun replaceFirst :: "jsstring \<Rightarrow> jsstring \<Rightarrow> jsstring \<Rightarrow> jsstring" where
  "replaceFirst pat rep [] = (if pat = [] then rep else [])"
| "replaceFirst pat rep (c # cs) =
     (if prefix pat (c # cs) then rep @ drop (length pat) (c # cs)
      else c # replaceFirst pat rep cs)"

text \<open>
  Truthiness of an optional string field: \<open>undefined\<close> (\<open>None\<close>) and the empty
  string are falsy. \<open>orEmpty x\<close> is \<open>x || ""\<close>.
\<close>

definition truthy :: "jsstring option \<Rightarrow> bool" where
  "truthy x = (case x of None \<Rightarrow> False | Some s \<Rightarrow> s \<noteq> [])"

definition orEmpty :: "jsstring option \<Rightarrow> jsstring" where
  "orEmpty x = (case x of None \<Rightarrow> [] | Some s \<Rightarrow> s)"

section \<open>net.isIP\<close>

text \<open>
  Node's \<open>net.isIP\<close> returns 4 for a dotted-decimal IPv4 address, 6 for an IPv6 address
  in text form and 0 for anything else. The model follows Node's own patterns:
  an IPv4 segment is the decimal numeral of 0..255 without leading zeros; an IPv6
  address is eight groups of one to four hex digits, where one \<open>::\<close> may stand for
  one or more groups and the last two groups may be written as an IPv4 address, with an
  optional zone \<open>%...\<close> at the end.
\<close>

definition isDigit :: "nat \<Rightarrow> bool" where
  "isDigit c = (48 \<le> c \<and> c \<le> 57)"

definition isHexDigit :: "nat \<Rightarrow> bool" where
  "isHexDigit c = (isDigit c \<or> (65 \<le> c \<and> c \<le> 70) \<or> (97 \<le> c \<and> c \<le> 102))"

definition decimal :: "jsstring \<Rightarrow> nat" where
  "decimal ds = foldl (\<lambda>acc c. 10 * acc + (c - 48)) 0 ds"

definition v4Seg :: "jsstring \<Rightarrow> bool" where
  "v4Seg s = (s \<noteq> [] \<and> length s \<le> 3 \<and> list_all isDigit s
              \<and> (length s = 1 \<or> hd s \<noteq> 48) \<and> decimal s \<le> 255)"

definition isIPv4 :: "jsstring \<Rightarrow> bool" where
  "isIPv4 s = (let ps = split 46 s in length ps = 4 \<and> list_all v4Seg ps)"

definition v6Seg :: "jsstring \<Rightarrow> bool" where
  "v6Seg s = (s \<noteq> [] \<and> length s \<le> 4 \<and> list_all isHexDigit s)"

text \<open>The text before and after the first \<open>::\<close>, if there is one.\<close>

fun splitDoubleColon :: "jsstring \<Rightarrow> (jsstring \<times> jsstring) option" where
  "splitDoubleColon (c # d # cs) =
     (if c = 58 \<and> d = 58 then Some ([], cs)
      else (case splitDoubleColon (d # cs) of
              None \<Rightarrow> None
            | Some (l, r) \<Rightarrow> Some (c # l, r)))"
| "splitDoubleColon cs = None"

definition groups :: "jsstring \<Rightarrow> jsstring list" where
  "groups s = (if s = [] then [] else split 58 s)"

text \<open>
  The number of 16-bit groups a colon-separated list stands for, or \<open>None\<close> when it is
  ill-formed: every group is hex, except that the last may be an IPv4 address (two groups).
\<close>

definition groupCount :: "jsstring list \<Rightarrow> nat option" where
  "groupCount gs =
     (if gs = [] then Some 0
      else if list_all v6Seg gs then Some (length gs)
      else if list_all v6Seg (butlast gs) \<and> isIPv4 (last gs) then Some (length gs + 1)
      else None)"

definition isZoneUnit :: "nat \<Rightarrow> bool" where
  "isZoneUnit c = (isDigit c \<or> (65 \<le> c \<and> c \<le> 90) \<or> (97 \<le> c \<and> c \<le> 122)
                   \<or> c = 45 \<or> c = 46 \<or> c = 58)"

definition isIPv6 :: "jsstring \<Rightarrow> bool" where
  "isIPv6 s =
     (let addr = takeWhile (\<lambda>c. c \<noteq> 37) s;
          rest = dropWhile (\<lambda>c. c \<noteq> 37) s;
          zoneOk = (rest = [] \<or> (tl rest \<noteq> [] \<and> list_all isZoneUnit (tl rest)))
      in zoneOk \<and>
         (case splitDoubleColon addr of
            None \<Rightarrow> groupCount (groups addr) = Some 8
          | Some (l, r) \<Rightarrow>
              (case (groupCount (groups l), groupCount (groups r)) of
                 (Some m, Some n) \<Rightarrow> list_all v6Seg (groups l) \<and> m + n \<le> 7
               | _ \<Rightarrow> False)))"

definition isIP :: "jsstring \<Rightarrow> nat" where
  "isIP s = (if isIPv4 s then 4 else if isIPv6 s then 6 else 0)"

section \<open>URL validation\<close>

text \<open>
  \<open>parseInt(p, 10)\<close> on the leading decimal digits of \<open>p\<close>; \<open>None\<close> is NaN.
  (Leading white space and a sign are not modelled: \<open>isPrivateIpLiteral\<close> only parses
  the dot-separated parts of a string for which \<open>net.isIP\<close> returned 4.)
  Every comparison with NaN or \<open>undefined\<close> is false.
\<close>

definition parseInt10 :: "jsstring \<Rightarrow> nat option" where
  "parseInt10 p = (let ds = takeWhile isDigit p in if ds = [] then None else Some (decimal ds))"

definition at_index :: "nat option list \<Rightarrow> nat \<Rightarrow> nat option" where
  "at_index xs i = (if i < length xs then xs ! i else None)"

definition num_eq :: "nat option \<Rightarrow> nat \<Rightarrow> bool" where
  "num_eq x n = (case x of None \<Rightarrow> False | Some v \<Rightarrow> v = n)"

definition num_ge :: "nat option \<Rightarrow> nat \<Rightarrow> bool" where
  "num_ge x n = (case x of None \<Rightarrow> False | Some v \<Rightarrow> n \<le> v)"

definition num_le :: "nat option \<Rightarrow> nat \<Rightarrow> bool" where
  "num_le x n = (case x of None \<Rightarrow> False | Some v \<Rightarrow> v \<le> n)"

definition isPrivateIpLiteral :: "jsstring \<Rightarrow> bool" where
  "isPrivateIpLiteral hostname =
     (if hostname = [] then False
      else let ipVersion = isIP hostname in
        if ipVersion = 0 then False
        else if ipVersion = 4 then
          (let parts = map parseInt10 (split 46 hostname);
               a = at_index parts 0;
               b = at_index parts 1
           in if num_eq a 10 then True
              else if num_eq a 172 \<and> num_ge b 16 \<and> num_le b 31 then True
              else if num_eq a 192 \<and> num_eq b 168 then True
              else if num_eq a 127 then True
              else if num_eq a 169 \<and> num_eq b 254 then True
              else if num_eq a 0 then True
              else if num_eq a 100 \<and> num_ge b 64 \<and> num_le b 127 then True
              else False)
        else
          (let h = toLowerCase hostname
           in if h = js ''::1'' then True
              else if prefix (js ''fe80:'') h then True
              else if prefix (js ''fc'') h \<or> prefix (js ''fd'') h then True
              else False))"

text \<open>
  \<open>RSS_DOMAIN_ALLOWLIST\<close>: the environment variable split at commas, each entry trimmed
  and lower-cased, empty entries removed.
\<close>

definition RSS_DOMAIN_ALLOWLIST :: "jsstring \<Rightarrow> jsstring list" where
  "RSS_DOMAIN_ALLOWLIST env = filter (\<lambda>s. s \<noteq> []) (map (\<lambda>s. toLowerCase (trim s)) (split 44 env))"

definition passesAllowlist :: "jsstring list \<Rightarrow> jsstring \<Rightarrow> bool" where
  "passesAllowlist allowlist hostname =
     (if allowlist = [] then True
      else let h = toLowerCase hostname
           in list_ex (\<lambda>allowed. h = allowed \<or> suffix (46 # allowed) h) allowlist)"

text \<open>
  The URL class is the platform's (WHATWG URL Standard): \<open>validateRssUrl\<close> reads the
  \<open>protocol\<close> and the \<open>hostname\<close> of the parsed URL and returns its serialisation
  (\<open>toString()\<close>, the \<open>href\<close>). The constructor is a parameter \<open>newURL\<close>;
  \<open>None\<close> is the TypeError it throws on a string that is not an absolute URL.
\<close>

record URL =
  protocol :: jsstring
  hostname :: jsstring
  href :: jsstring

datatype validation = Rejected jsstring | Accepted jsstring

definition validateRssUrl ::
  "(jsstring \<Rightarrow> URL option) \<Rightarrow> jsstring list \<Rightarrow> jsstring \<Rightarrow> validation" where
  "validateRssUrl newURL allowlist inputUrl =
     (case newURL inputUrl of
        None \<Rightarrow> Rejected (js ''Invalid URL'')
      | Some url \<Rightarrow>
          if protocol url \<noteq> js ''http:'' \<and> protocol url \<noteq> js ''https:''
          then Rejected (js ''Only http/https URLs are allowed'')
          else let h = toLowerCase (hostname url) in
            if h = js ''localhost'' \<or> suffix (js ''.localhost'') h \<or> suffix (js ''.local'') h
            then Rejected (js ''Localhost/local domains are not allowed'')
            else if isPrivateIpLiteral (hostname url)
            then Rejected (js ''Private IP addresses are not allowed'')
            else if \<not> passesAllowlist allowlist (hostname url)
            then Rejected (js ''Hostname not in allowlist'')
            else Accepted (href url))"

text \<open>
  What \<open>new URL(s)\<close> gives on the inputs used as examples below, by the WHATWG URL
  Standard: scheme and host are lower-cased, the \<open>hostname\<close> of an IPv6 host is its
  serialisation in square brackets, and the \<open>href\<close> of each of these inputs is the
  input itself. Inputs outside the table are not used.
\<close>

definition sampleURL :: "jsstring \<Rightarrow> jsstring \<Rightarrow> jsstring \<Rightarrow> URL" where
  "sampleURL scheme host path =
     \<lparr>protocol = scheme @ js '':'', hostname = host, href = scheme @ js ''://'' @ host @ path\<rparr>"

definition newURL_samples :: "jsstring \<Rightarrow> URL option" where
  "newURL_samples s =
     (if s = js ''http://[::1]/feed.xml'' then Some (sampleURL (js ''http'') (js ''[::1]'') (js ''/feed.xml''))
      else if s = js ''http://[fe80::1]/feed.xml'' then Some (sampleURL (js ''http'') (js ''[fe80::1]'') (js ''/feed.xml''))
      else if s = js ''http://[fc00::1]/feed.xml'' then Some (sampleURL (js ''http'') (js ''[fc00::1]'') (js ''/feed.xml''))
      else if s = js ''http://127.0.0.1/feed.xml'' then Some (sampleURL (js ''http'') (js ''127.0.0.1'') (js ''/feed.xml''))
      else if s = js ''https://sub.example.com/feed.xml'' then Some (sampleURL (js ''https'') (js ''sub.example.com'') (js ''/feed.xml''))
      else if s = js ''https://evilexample.com/feed.xml'' then Some (sampleURL (js ''https'') (js ''evilexample.com'') (js ''/feed.xml''))
      else if s = js ''https://example.com/feed.xml'' then Some (sampleURL (js ''https'') (js ''example.com'') (js ''/feed.xml''))
      else None)"

section \<open>Feed cache\<close>

text \<open>
  \<open>cache\<close> is a Map from the key \<open>stableHash(rssUrl)\<close> to an entry \<open>{at, feed}\<close>.
  The digest (\<open>crypto\<close>) and the parser's \<open>parseURL\<close> are the platform's and are
  parameters; \<open>parseURL\<close> returns the parsed feed or the error it throws. A parsed
  feed is an object, so \<open>existing.feed\<close> is truthy whenever the entry exists.
  The state also logs every call of \<open>parseURL\<close> (\<open>upstream\<close>), so that claims about
  how often the collaborator is invoked can be stated. \<open>now\<close> is the value of
  \<open>Date.now()\<close> that the call reads before it awaits the fetch.
\<close>

datatype error = RangeError | TypeError | UpstreamError jsstring

record 'f entry =
  at :: int
  feed :: 'f

record 'f store =
  cache :: "jsstring \<rightharpoonup> 'f entry"
  upstream :: "jsstring list"

definition getFeed ::
  "(jsstring \<Rightarrow> jsstring) \<Rightarrow> int \<Rightarrow> (jsstring \<Rightarrow> error + 'f) \<Rightarrow> int \<Rightarrow> 'f store
     \<Rightarrow> jsstring \<Rightarrow> bool \<Rightarrow> (error + 'f) \<times> 'f store" where
  "getFeed stableHash CACHE_TTL_MS parseURL now st rssUrl force =
     (let key = stableHash rssUrl;
          existing = cache st key;
          fetch = (case parseURL rssUrl of
                     Inl err \<Rightarrow> (Inl err, st\<lparr>upstream := upstream st @ [rssUrl]\<rparr>)
                   | Inr fd \<Rightarrow>
                       (Inr fd, st\<lparr>cache := (cache st)(key \<mapsto> \<lparr>at = now, feed = fd\<rparr>),
                                   upstream := upstream st @ [rssUrl]\<rparr>))
      in case existing of
           None \<Rightarrow> fetch
         | Some e \<Rightarrow> if \<not> force \<and> now - at e < CACHE_TTL_MS then (Inr (feed e), st) else fetch)"

section \<open>Episode normalisation\<close>

subsection \<open>Text helpers\<close>

text \<open>
  \<open>stripHtml\<close>: \<open>replace(/<[^>]*>?/gm, "")\<close>. Every \<open><\<close> opens a match that runs
  through the next \<open>>\<close>, or to the end of the string when there is none; the flag says
  whether the scan is inside such a match.
\<close>

fun stripFrom :: "bool \<Rightarrow> jsstring \<Rightarrow> jsstring" where
  "stripFrom inTag [] = []"
| "stripFrom inTag (c # cs) =
     (if inTag then (if c = 62 then stripFrom False cs else stripFrom True cs)
      else (if c = 60 then stripFrom True cs else c # stripFrom False cs))"

definition stripHtml :: "jsstring \<Rightarrow> jsstring" where
  "stripHtml str = (if str = [] then [] else stripFrom False str)"

text \<open>\<open>replace(/\s+/g, " ")\<close>: every maximal run of white space becomes one space.\<close>

function collapseSpaces :: "jsstring \<Rightarrow> jsstring" where
  "collapseSpaces [] = []"
| "collapseSpaces (c # cs) =
     (if isSpace c then 32 # collapseSpaces (dropWhile isSpace cs)
      else c # collapseSpaces cs)"
  by pat_completeness auto
termination
  by (relation "measure length") (auto simp: le_imp_less_Suc length_dropWhile_le)

definition ellipsis :: nat where
  "ellipsis = 8230"

definition safeTruncate :: "jsstring \<Rightarrow> nat \<Rightarrow> jsstring" where
  "safeTruncate str n =
     (let s = trim (collapseSpaces (stripHtml str))
      in if s = [] then []
         else if length s > n then trim (take n s) @ [ellipsis] else s)"

definition normalizeToHttps :: "jsstring \<Rightarrow> jsstring" where
  "normalizeToHttps url =
     (if url = [] then []
      else if prefix (js ''http://'') url then replaceFirst (js ''http://'') (js ''https://'') url
      else url)"

subsection \<open>Raw items\<close>

text \<open>
  The feed parser copies the content of an XML element into the item as it finds it: a
  string for an element with text only, and an object or an array for an element that has
  attributes or child elements (\<open><link href="..."/>\<close> gives an object,
  the \<open>href\<close> of \<open><itunes:image><href>...</href></itunes:image>\<close> an array).
  A value is therefore absent, a string, or something that is not a string. An object or
  array is truthy, and it has no string methods: \<open>v.toLowerCase()\<close> and
  \<open>v.startsWith(...)\<close> throw a TypeError on it (\<open>stringReceiver\<close>).
  \<open>orEmptyValue v\<close> is \<open>v || ""\<close>.
\<close>

datatype jsvalue = Undefined | Str jsstring | NonString

definition truthyValue :: "jsvalue \<Rightarrow> bool" where
  "truthyValue v = (case v of Undefined \<Rightarrow> False | Str s \<Rightarrow> s \<noteq> [] | NonString \<Rightarrow> True)"

definition orEmptyValue :: "jsvalue \<Rightarrow> jsvalue" where
  "orEmptyValue v = (if truthyValue v then v else Str [])"

definition stringReceiver :: "jsvalue \<Rightarrow> error + jsstring" where
  "stringReceiver v = (case v of Str s \<Rightarrow> Inr s | _ \<Rightarrow> Inl TypeError)"

text \<open>
  An item of the parsed feed: every field may be absent. The fields copied from element
  content (\<open>title\<close>, \<open>link\<close>, \<open>pubDate\<close>, \<open>duration\<close>, and the \<open>href\<close> and
  \<open>url\<close> of an \<open>itunesImage\<close> object) are values; \<open>isoDate\<close>, \<open>content\<close> and
  \<open>contentSnippet\<close> are strings the parser computes. An enclosure and the \<open>$\<close> of a
  \<open>media:content\<close> or \<open>media:thumbnail\<close> node are attribute objects, whose \<open>url\<close>
  and \<open>type\<close> are strings when present; a node may have no \<open>$\<close>. \<open>itunesImage\<close>
  is a string or an object.
\<close>

record attrs =
  a_url :: "jsstring option"
  a_type :: "jsstring option"

datatype image = ImageString jsstring | ImageObject jsvalue jsvalue

record RawItem =
  title :: jsvalue
  enclosure :: "attrs option"
  mediaContent :: "attrs option list option"
  mediaThumbnail :: "attrs option list option"
  itunesImage :: "image option"
  duration :: jsvalue
  isoDate :: "jsstring option"
  pubDate :: jsvalue
  link :: jsvalue
  contentSnippet :: "jsstring option"
  content :: "jsstring option"

text \<open>\<open>nodes && nodes[0] && nodes[0].$\<close>\<close>

definition firstAttrs :: "attrs option list option \<Rightarrow> attrs option" where
  "firstAttrs nodes = (case nodes of Some (Some a # _) \<Rightarrow> Some a | _ \<Rightarrow> None)"

text \<open>
  \<open>pickImageUrl\<close> tests the type of \<open>itunesImage\<close> itself but not of its \<open>href\<close>
  and \<open>url\<close>: a truthy one that is not a string reaches \<open>url.startsWith\<close> in
  \<open>normalizeToHttps\<close>, which throws.
\<close>

definition pickImageUrl :: "RawItem \<Rightarrow> error + jsstring" where
  "pickImageUrl item =
     (let tn = (case firstAttrs (mediaThumbnail item) of None \<Rightarrow> None | Some a \<Rightarrow> a_url a)
      in if truthy tn then Inr (normalizeToHttps (orEmpty tn))
         else (case itunesImage item of
                 None \<Rightarrow> Inr []
               | Some (ImageString s) \<Rightarrow> Inr (if s \<noteq> [] then normalizeToHttps s else [])
               | Some (ImageObject h u) \<Rightarrow>
                   if truthyValue h
                   then (case stringReceiver h of Inl err \<Rightarrow> Inl err
                                                | Inr s \<Rightarrow> Inr (normalizeToHttps s))
                   else if truthyValue u
                   then (case stringReceiver u of Inl err \<Rightarrow> Inl err
                                                | Inr s \<Rightarrow> Inr (normalizeToHttps s))
                   else Inr []))"

text \<open>The \<open>url\<close> of the result is a value: in the last case it is the item's link as it is.\<close>

record media =
  m_url :: jsvalue
  m_type :: jsstring

definition pickMedia :: "RawItem \<Rightarrow> media" where
  "pickMedia item =
     (case (case enclosure item of Some e \<Rightarrow> if truthy (a_url e) then Some e else None
                                | None \<Rightarrow> None) of
        Some e \<Rightarrow> \<lparr>m_url = Str (orEmpty (a_url e)), m_type = orEmpty (a_type e)\<rparr>
      | None \<Rightarrow>
          (case (case firstAttrs (mediaContent item) of
                   Some a \<Rightarrow> if truthy (a_url a) then Some a else None
                 | None \<Rightarrow> None) of
             Some a \<Rightarrow> \<lparr>m_url = Str (orEmpty (a_url a)), m_type = orEmpty (a_type a)\<rparr>
           | None \<Rightarrow> \<lparr>m_url = orEmptyValue (link item), m_type = []\<rparr>))"

subsection \<open>Kind inference\<close>

datatype kind = Audio | Video

text \<open>
  \<open>u.match(/\.(e1|e2|...)(\?|#|$)/)\<close>: somewhere in \<open>u\<close> there is a dot, one of the
  extensions, and then \<open>?\<close>, \<open>#\<close> or the end of the string.
\<close>

definition extensionAt :: "jsstring list \<Rightarrow> jsstring \<Rightarrow> bool" where
  "extensionAt exts s =
     list_ex (\<lambda>e. prefix (46 # e) s \<and>
                   (case drop (Suc (length e)) s of [] \<Rightarrow> True | c # _ \<Rightarrow> c = 63 \<or> c = 35)) exts"

fun matchExtension :: "jsstring list \<Rightarrow> jsstring \<Rightarrow> bool" where
  "matchExtension exts [] = False"
| "matchExtension exts (c # cs) = (extensionAt exts (c # cs) \<or> matchExtension exts cs)"

definition videoExtensions :: "jsstring list" where
  "videoExtensions = [js ''mp4'', js ''webm'', js ''mov'']"

definition audioExtensions :: "jsstring list" where
  "audioExtensions = [js ''mp3'', js ''m4a'', js ''aac'', js ''ogg'', js ''wav'']"

definition inferKind :: "jsstring option \<Rightarrow> jsstring option \<Rightarrow> kind" where
  "inferKind mediaUrl mediaType =
     (let u = toLowerCase (orEmpty mediaUrl);
          t = toLowerCase (orEmpty mediaType)
      in if prefix (js ''video/'') t then Video
         else if prefix (js ''audio/'') t then Audio
         else if sublist (js ''.m3u8'') u then Video
         else if matchExtension videoExtensions u then Video
         else if matchExtension audioExtensions u then Audio
         else Audio)"

subsection \<open>The episode list of \<open>/api/episodes.json\<close>\<close>

text \<open>
  A record of the result. The title, date, duration and link pass the item's value through
  as it is; the media URL and the image URL have been through a string method, so they are
  strings in every record that exists.
\<close>

record EpisodeRecord =
  e_id :: nat
  e_title :: jsvalue
  e_date :: jsvalue
  e_description :: jsstring
  e_mediaUrl :: jsstring
  e_mediaType :: jsstring
  e_kind :: kind
  e_imageUrl :: jsstring
  e_duration :: jsvalue
  e_link :: jsvalue

text \<open>
  The callback of \<open>.map((it, idx) => ...)\<close>, in the order in which it evaluates.
  \<open>inferKind\<close> calls \<open>(mediaUrl || "").toLowerCase()\<close>: when the media URL is the
  item's link and the link is not a string, that call throws a TypeError.
  \<open>new Date(s).toISOString()\<close> is the platform's and is the parameter
  \<open>toISOString\<close>: it gives the ISO form of a date string and throws a RangeError
  (\<open>None\<close>) when the string is not a date. \<open>pickImageUrl\<close> is called last, inside the
  object literal, and may throw as well.
\<close>

definition toEpisode :: "(jsstring \<Rightarrow> jsstring option) \<Rightarrow> nat \<Rightarrow> RawItem \<Rightarrow> error + EpisodeRecord" where
  "toEpisode toISOString idx it =
     (let md = pickMedia it;
          mediaUrl = orEmptyValue (m_url md)
      in case stringReceiver mediaUrl of
           Inl err \<Rightarrow> Inl err
         | Inr u \<Rightarrow>
             (let knd = inferKind (Some u) (Some (m_type md));
                  dateStr = (if truthy (isoDate it)
                             then map_option Str (toISOString (orEmpty (isoDate it)))
                             else Some (orEmptyValue (pubDate it)))
              in case dateStr of
                   None \<Rightarrow> Inl RangeError
                 | Some d \<Rightarrow>
                     (case pickImageUrl it of
                        Inl err \<Rightarrow> Inl err
                      | Inr img \<Rightarrow>
                          Inr \<lparr>e_id = idx,
                               e_title = (if truthyValue (title it) then title it
                                          else Str (js ''Untitled Episode'')),
                               e_date = d,
                               e_description =
                                 safeTruncate (if truthy (contentSnippet it) then orEmpty (contentSnippet it)
                                               else orEmpty (content it)) 1000,
                               e_mediaUrl = u,
                               e_mediaType = m_type md,
                               e_kind = knd,
                               e_imageUrl = img,
                               e_duration = orEmptyValue (duration it),
                               e_link = orEmptyValue (link it)\<rparr>)))"

text \<open>\<open>xs.slice(0, n)\<close>: a negative \<open>n\<close> counts from the end.\<close>

definition slice0 :: "int \<Rightarrow> 'a list \<Rightarrow> 'a list" where
  "slice0 n xs = (if n < 0 then take (length xs - nat (- n)) xs else take (nat n) xs)"

text \<open>\<open>map\<close> with a callback that may throw: the first error ends the whole call.\<close>

fun mapIndexed :: "(nat \<Rightarrow> 'a \<Rightarrow> error + 'b) \<Rightarrow> nat \<Rightarrow> 'a list \<Rightarrow> error + 'b list" where
  "mapIndexed f i [] = Inr []"
| "mapIndexed f i (x # xs) =
     (case f i x of
        Inl err \<Rightarrow> Inl err
      | Inr y \<Rightarrow> (case mapIndexed f (Suc i) xs of Inl err \<Rightarrow> Inl err | Inr ys \<Rightarrow> Inr (y # ys)))"

definition episodes ::
  "(jsstring \<Rightarrow> jsstring option) \<Rightarrow> int \<Rightarrow> RawItem list option \<Rightarrow> error + EpisodeRecord list" where
  "episodes toISOString EP_LIMIT feed_items =
     (case mapIndexed (toEpisode toISOString) 0
             (slice0 EP_LIMIT (case feed_items of None \<Rightarrow> [] | Some items \<Rightarrow> items)) of
        Inl err \<Rightarrow> Inl err
      | Inr rs \<Rightarrow> Inr (filter (\<lambda>e. e_mediaUrl e \<noteq> []) rs))"

text \<open>
  What \<open>new Date(s).toISOString()\<close> gives on the date strings used as examples below.
  Date strings outside the table are not used.
\<close>

definition toISOString_samples :: "jsstring \<Rightarrow> jsstring option" where
  "toISOString_samples s =
     (if s = js ''2024-01-02T03:04:05.000Z'' then Some (js ''2024-01-02T03:04:05.000Z'')
      else None)"

section \<open>Sample data for the examples\<close>

text \<open>A fetch collaborator that succeeds on one feed URL, one that always fails, and two stores.\<close>

definition sampleFetch :: "jsstring \<Rightarrow> error + nat" where
  "sampleFetch u =
     (if u = js ''https://example.com/feed.xml'' then Inr 7
      else Inl (UpstreamError (js ''ENOTFOUND'')))"

definition failingFetch :: "jsstring \<Rightarrow> error + nat" where
  "failingFetch u = Inl (UpstreamError (js ''ETIMEDOUT''))"

definition emptyStore :: "nat store" where
  "emptyStore = \<lparr>cache = Map.empty, upstream = []\<rparr>"

definition sampleStore :: "nat store" where
  "sampleStore =
     \<lparr>cache = [js ''https://example.com/feed.xml'' \<mapsto> \<lparr>at = 1000, feed = 7\<rparr>],
      upstream = [js ''https://example.com/feed.xml'']\<rparr>"

text \<open>An item with every field absent.\<close>

definition emptyItem :: RawItem where
  "emptyItem = \<lparr>title = Undefined, enclosure = None, mediaContent = None, mediaThumbnail = None,
                 itunesImage = None, duration = Undefined, isoDate = None, pubDate = Undefined,
                 link = Undefined, contentSnippet = None, content = None\<rparr>"

text \<open>An item with an http enclosure and an http image.\<close>

definition httpItem :: RawItem where
  "httpItem = emptyItem\<lparr>enclosure := Some \<lparr>a_url = Some (js ''http://a/b.mp3''), a_type = Some (js ''audio/mpeg'')\<rparr>,
                        itunesImage := Some (ImageString (js ''http://a/c.png''))\<rparr>"

text \<open>
  Two items as the parser delivers them for
  \<open><item><link href="http://a/b.mp3"/></item>\<close> (the link is an object) and for
  \<open><item><enclosure url="http://a/b.mp3" type="audio/mpeg"/><itunes:image><href>http://a/c.png</href></itunes:image></item>\<close>
  (the \<open>href\<close> of the image is an array).
\<close>

definition linkObjectItem :: RawItem where
  "linkObjectItem = emptyItem\<lparr>link := NonString\<rparr>"

definition imageHrefItem :: RawItem where
  "imageHrefItem = emptyItem\<lparr>enclosure := Some \<lparr>a_url = Some (js ''http://a/b.mp3''), a_type = Some (js ''audio/mpeg'')\<rparr>,
                             itunesImage := Some (ImageObject NonString Undefined)\<rparr>"

section \<open>Notions of the specification\<close>

text \<open>
  \<open>u\<close> has the extension \<open>e\<close> immediately before an optional query or fragment:
  a dot and \<open>e\<close> occur in \<open>u\<close>, followed by \<open>?\<close>, by \<open>#\<close> or by nothing.
\<close>

definition hasExtension :: "jsstring \<Rightarrow> jsstring \<Rightarrow> bool" where
  "hasExtension e u =
     (\<exists>p r. u = p @ js ''.'' @ e @ r \<and> (r = [] \<or> (\<exists>r'. r = 63 # r') \<or> (\<exists>r'. r = 35 # r')))"

text \<open>The URLs an item offers: of its enclosure, of its first media-content and media-thumbnail entry.\<close>

definition enclosureUrl :: "RawItem \<Rightarrow> jsstring option" where
  "enclosureUrl item = (case enclosure item of None \<Rightarrow> None | Some e \<Rightarrow> a_url e)"

definition mediaContentUrl :: "RawItem \<Rightarrow> jsstring option" where
  "mediaContentUrl item = (case mediaContent item of Some (Some a # _) \<Rightarrow> a_url a | _ \<Rightarrow> None)"

definition thumbnailUrl :: "RawItem \<Rightarrow> jsstring option" where
  "thumbnailUrl item = (case mediaThumbnail item of Some (Some a # _) \<Rightarrow> a_url a | _ \<Rightarrow> None)"

text \<open>
  The selected media URL: the enclosure URL, else the URL of the first media-content entry,
  else the item's link, else empty. The selected image URL: the media-thumbnail URL, else
  the iTunes image (a string, or its href, or its url), else empty. A URL is a string:
  \<open>textOf\<close> reads a value as one, and a value that is not a string offers none.
\<close>

definition textOf :: "jsvalue \<Rightarrow> jsstring" where
  "textOf v = (case v of Str s \<Rightarrow> s | _ \<Rightarrow> [])"

definition selectedMedia :: "RawItem \<Rightarrow> jsstring" where
  "selectedMedia item =
     (if truthy (enclosureUrl item) then orEmpty (enclosureUrl item)
      else if truthy (mediaContentUrl item) then orEmpty (mediaContentUrl item)
      else textOf (link item))"

definition selectedImage :: "RawItem \<Rightarrow> jsstring" where
  "selectedImage item =
     (if truthy (thumbnailUrl item) then orEmpty (thumbnailUrl item)
      else (case itunesImage item of
              None \<Rightarrow> []
            | Some (ImageString s) \<Rightarrow> s
            | Some (ImageObject h u) \<Rightarrow> if truthyValue h then textOf h else textOf u))"

text \<open>
  The values of an item that reach a string method are strings or absent: its link, and
  the href and url of its iTunes image object.
\<close>

definition stringFields :: "RawItem \<Rightarrow> bool" where
  "stringFields item =
     (link item \<noteq> NonString
      \<and> (case itunesImage item of
            Some (ImageObject h u) \<Rightarrow> h \<noteq> NonString \<and> u \<noteq> NonString
          | _ \<Rightarrow> True))"

text \<open>No two adjacent code units of the string are both white space.\<close>

fun spaced :: "jsstring \<Rightarrow> bool" where
  "spaced (a # b # cs) = (\<not> (isSpace a \<and> isSpace b) \<and> spaced (b # cs))"
| "spaced cs = True"

text \<open>
  The dotted-decimal text of an IPv4 address with octets below 256 (the serialisation of an
  IPv4 host), and the ranges of the specification by the first two octets: loopback
  127/8, link-local 169.254/16, private 10/8, 172.16/12 and 192.168/16, CGNAT 100.64/10 and
  the all-zeros block 0/8.
\<close>

definition decimalOf :: "nat \<Rightarrow> jsstring" where
  "decimalOf n =
     (if n < 10 then [48 + n]
      else if n < 100 then [48 + n div 10, 48 + n mod 10]
      else [48 + n div 100, 48 + n div 10 mod 10, 48 + n mod 10])"

definition dotted :: "nat \<Rightarrow> nat \<Rightarrow> nat \<Rightarrow> nat \<Rightarrow> jsstring" where
  "dotted a b c d = decimalOf a @ js ''.'' @ decimalOf b @ js ''.'' @ decimalOf c @ js ''.'' @ decimalOf d"

definition blockedIPv4 :: "nat \<Rightarrow> nat \<Rightarrow> bool" where
  "blockedIPv4 a b =
     (a = 127 \<or> (a = 169 \<and> b = 254) \<or> a = 10 \<or> (a = 172 \<and> 16 \<le> b \<and> b \<le> 31)
      \<or> (a = 192 \<and> b = 168) \<or> (a = 100 \<and> 64 \<le> b \<and> b \<le> 127) \<or> a = 0)"

section \<open>Properties of the URL validator\<close>

lemmas validator_eval = js_def toLowerCase_def lowerUnit_def isSpace_def trim_def RSS_DOMAIN_ALLOWLIST_def
  validateRssUrl_def newURL_samples_def sampleURL_def isPrivateIpLiteral_def isIP_def isIPv4_def isIPv6_def
  v4Seg_def v6Seg_def isDigit_def isHexDigit_def decimal_def groups_def groupCount_def isZoneUnit_def
  parseInt10_def at_index_def num_eq_def num_ge_def num_le_def passesAllowlist_def Let_def suffix_to_prefix

text \<open>What an accepted input has passed.\<close>

lemma accepted_passes:
  assumes "validateRssUrl newURL allowlist inputUrl = Accepted u"
  shows "\<exists>url. newURL inputUrl = Some url \<and> u = href url
           \<and> (protocol url = js ''http:'' \<or> protocol url = js ''https:'')
           \<and> \<not> isPrivateIpLiteral (hostname url)
           \<and> passesAllowlist allowlist (hostname url)"
proof (cases "newURL inputUrl")
  case None
  with assms show ?thesis by (simp add: validateRssUrl_def)
next
  case (Some url)
  with assms show ?thesis
    by (simp add: validateRssUrl_def Let_def split: if_splits)
qed

lemma passesAllowlist_match:
  assumes "allowlist \<noteq> []" and "passesAllowlist allowlist h"
  shows "\<exists>allowed p. allowed \<in> set allowlist
            \<and> (toLowerCase h = allowed \<or> toLowerCase h = p @ js ''.'' @ allowed)"
proof -
  from assms obtain allowed where al: "allowed \<in> set allowlist"
    and m: "toLowerCase h = allowed \<or> suffix (46 # allowed) (toLowerCase h)"
    unfolding passesAllowlist_def by (auto simp: Let_def list_ex_iff)
  have d: "js ''.'' = [46]" by (simp add: js_def)
  from m have "toLowerCase h = allowed \<or> (\<exists>p. toLowerCase h = p @ js ''.'' @ allowed)"
    unfolding d suffix_def by auto
  with al show ?thesis by blast
qed

text \<open>
  The IPv4 half of the rule holds in general. The hostname of a URL with an IPv4 host is
  the dotted-decimal text of the address; \<open>net.isIP\<close> recognises it, \<open>parseInt\<close>
  reads the octets back, and \<open>isPrivateIpLiteral\<close> is true exactly on the ranges of
  the specification. So every such URL is rejected, as is every URL whose hostname is
  \<open>localhost\<close> or ends with \<open>.localhost\<close> or \<open>.local\<close>.
\<close>

lemma three_digits: "100 * (n div 100) + 10 * (n div 10 mod 10) + n mod 10 = (n::nat)"
proof -
  have "n mod (10 * 10) = 10 * (n div 10 mod 10) + n mod 10" by (rule mod_mult2_eq)
  then have "n mod 100 = 10 * (n div 10 mod 10) + n mod 10" by simp
  moreover have "100 * (n div 100) + n mod 100 = n" by (rule mult_div_mod_eq)
  ultimately show ?thesis by linarith
qed

lemma decimalOf_props:
  assumes "n < 256"
  shows "v4Seg (decimalOf n)" and "parseInt10 (decimalOf n) = Some n" and "46 \<notin> set (decimalOf n)"
proof -
  have d: "list_all isDigit (decimalOf n)"
    using assms by (auto simp: decimalOf_def isDigit_def)
  have v: "decimal (decimalOf n) = n"
    using assms by (auto simp: decimalOf_def decimal_def three_digits)
  from assms have h: "length (decimalOf n) = 1 \<or> hd (decimalOf n) \<noteq> 48"
    by (auto simp: decimalOf_def)
  from d v h assms show "v4Seg (decimalOf n)"
    by (auto simp: v4Seg_def decimalOf_def)
  from d have tw: "takeWhile isDigit (decimalOf n) = decimalOf n"
    unfolding list_all_iff by (simp only: takeWhile_eq_all_conv)
  have ne: "decimalOf n \<noteq> []" by (simp add: decimalOf_def)
  show "parseInt10 (decimalOf n) = Some n"
    unfolding parseInt10_def Let_def tw using v ne by simp
  from d show "46 \<notin> set (decimalOf n)"
    by (auto simp: list_all_iff isDigit_def)
qed

lemma split_no_sep: "sep \<notin> set x \<Longrightarrow> split sep x = [x]"
  by (induction x) auto

lemma split_at_sep: "sep \<notin> set x \<Longrightarrow> split sep (x @ sep # y) = x # split sep y"
  by (induction x) auto

lemma split_dotted:
  assumes "a < 256" "b < 256" "c < 256" "d < 256"
  shows "split 46 (dotted a b c d) = [decimalOf a, decimalOf b, decimalOf c, decimalOf d]"
proof -
  have dot: "js ''.'' = [46]" by (simp add: js_def)
  from assms have n: "46 \<notin> set (decimalOf a)" "46 \<notin> set (decimalOf b)"
    "46 \<notin> set (decimalOf c)" "46 \<notin> set (decimalOf d)"
    by (simp_all add: decimalOf_props(3))
  show ?thesis unfolding dotted_def dot
    by (simp add: split_at_sep n split_no_sep)
qed

lemma isPrivateIpLiteral_dotted:
  assumes "a < 256" "b < 256" "c < 256" "d < 256"
  shows "isPrivateIpLiteral (dotted a b c d) = blockedIPv4 a b"
proof -
  note sp = split_dotted [OF assms]
  from assms have v: "isIPv4 (dotted a b c d)"
    unfolding isIPv4_def sp by (simp add: decimalOf_props(1))
  have ne: "dotted a b c d \<noteq> []" by (simp add: dotted_def js_def)
  from assms have pa: "map parseInt10 (split 46 (dotted a b c d)) = [Some a, Some b, Some c, Some d]"
    unfolding sp by (simp add: decimalOf_props(2))
  show ?thesis
    unfolding isPrivateIpLiteral_def isIP_def pa Let_def blockedIPv4_def
    using v ne by (auto simp: at_index_def num_eq_def num_ge_def num_le_def)
qed

lemma blocked_ipv4_rejected:
  assumes p: "newURL inputUrl = Some url"
    and h: "hostname url = dotted a b c d" and o: "a < 256" "b < 256" "c < 256" "d < 256"
    and r: "blockedIPv4 a b"
  shows "\<exists>reason. validateRssUrl newURL allowlist inputUrl = Rejected reason"
proof -
  from isPrivateIpLiteral_dotted [OF o] r h have "isPrivateIpLiteral (hostname url)" by simp
  then show ?thesis unfolding validateRssUrl_def p by (simp add: Let_def)
qed

lemma local_names_rejected:
  assumes p: "newURL inputUrl = Some url"
    and h: "toLowerCase (hostname url) = js ''localhost''
            \<or> (\<exists>x. toLowerCase (hostname url) = x @ js ''.localhost'')
            \<or> (\<exists>x. toLowerCase (hostname url) = x @ js ''.local'')"
  shows "\<exists>reason. validateRssUrl newURL allowlist inputUrl = Rejected reason"
proof -
  from h have "toLowerCase (hostname url) = js ''localhost''
      \<or> suffix (js ''.localhost'') (toLowerCase (hostname url))
      \<or> suffix (js ''.local'') (toLowerCase (hostname url))"
    unfolding suffix_def by blast
  then show ?thesis unfolding validateRssUrl_def p by (simp add: Let_def)
qed

lemma ipv4_loopback_url_rejected:
  "validateRssUrl newURL_samples [] (js ''http://127.0.0.1/feed.xml'')
     = Rejected (js ''Private IP addresses are not allowed'')"
  by (simp add: validator_eval)

text \<open>
  The IPv6 half does not. The \<open>hostname\<close> of a URL with an IPv6 host is the address in
  square brackets, and \<open>net.isIP\<close> returns 0 for every string that begins with a
  bracket: \<open>isPrivateIpLiteral\<close> is false on every such hostname, and with no allowlist
  every http or https URL with an IPv6 host is accepted.
\<close>

lemma split_Cons_hd:
  "c \<noteq> sep \<Longrightarrow> \<exists>p ps. split sep (c # cs) = (c # p) # ps"
  by (cases "split sep cs") auto

lemma isIPv4_bracket: "\<not> isIPv4 (91 # s)"
proof -
  obtain p ps where sp: "split 46 (91 # s) = (91 # p) # ps"
    using split_Cons_hd [of 91 46 s] by auto
  have "\<not> v4Seg (91 # p)" by (simp add: v4Seg_def isDigit_def)
  with sp show ?thesis by (simp add: isIPv4_def)
qed

lemma groupCount_bracket: "groupCount (groups (91 # s)) = None"
proof -
  obtain p ps where sp: "split 58 (91 # s) = (91 # p) # ps"
    using split_Cons_hd [of 91 58 s] by auto
  have g: "groups (91 # s) = (91 # p) # ps" unfolding groups_def sp [symmetric] by simp
  have n: "\<not> v6Seg (91 # p)" by (simp add: v6Seg_def isHexDigit_def isDigit_def)
  have "\<not> (list_all v6Seg (butlast ((91 # p) # ps)) \<and> isIPv4 (last ((91 # p) # ps)))"
  proof (cases ps)
    case Nil
    then show ?thesis by (simp add: isIPv4_bracket)
  next
    case (Cons q qs)
    with n show ?thesis by simp
  qed
  with n show ?thesis unfolding g groupCount_def by simp
qed

lemma splitDoubleColon_bracket:
  "splitDoubleColon (91 # s) = Some (l, r) \<Longrightarrow> \<exists>l'. l = 91 # l'"
  by (cases s) (auto split: option.splits)

lemma isIPv6_bracket: "\<not> isIPv6 (91 # s)"
proof -
  have a: "takeWhile (\<lambda>c. c \<noteq> 37) (91 # s) = 91 # takeWhile (\<lambda>c. c \<noteq> 37) s" by simp
  let ?a = "91 # takeWhile (\<lambda>c. c \<noteq> 37) s"
  have "\<not> (case splitDoubleColon ?a of
            None \<Rightarrow> groupCount (groups ?a) = Some 8
          | Some (l, r) \<Rightarrow>
              (case (groupCount (groups l), groupCount (groups r)) of
                 (Some m, Some n) \<Rightarrow> list_all v6Seg (groups l) \<and> m + n \<le> 7
               | _ \<Rightarrow> False))"
  proof (cases "splitDoubleColon ?a")
    case None
    then show ?thesis by (simp add: groupCount_bracket)
  next
    case (Some lr)
    obtain l r where lr: "lr = (l, r)" by (cases lr)
    with Some splitDoubleColon_bracket obtain l' where "l = 91 # l'" by blast
    then have "groupCount (groups l) = None" by (simp add: groupCount_bracket)
    with Some lr show ?thesis by simp
  qed
  then show ?thesis unfolding isIPv6_def a Let_def by blast
qed

lemma isPrivateIpLiteral_bracket: "\<not> isPrivateIpLiteral (91 # s)"
  by (simp add: isPrivateIpLiteral_def isIP_def isIPv4_bracket isIPv6_bracket)

lemma bracketed_host_accepted:
  assumes p: "newURL inputUrl = Some url"
    and pr: "protocol url = js ''http:'' \<or> protocol url = js ''https:''"
    and h: "hostname url = js ''['' @ x @ js '']''"
  shows "validateRssUrl newURL [] inputUrl = Accepted (href url)"
proof -
  have hn: "hostname url = 91 # x @ [93]" using h by (simp add: js_def)
  have low: "toLowerCase (hostname url) = 91 # toLowerCase x @ [93]"
    unfolding hn by (simp add: toLowerCase_def lowerUnit_def)
  have 1: "toLowerCase (hostname url) \<noteq> js ''localhost''" unfolding low by (simp add: js_def)
  have 2: "\<not> suffix (js ''.localhost'') (toLowerCase (hostname url))"
    unfolding low by (simp add: js_def suffix_to_prefix)
  have 3: "\<not> suffix (js ''.local'') (toLowerCase (hostname url))"
    unfolding low by (simp add: js_def suffix_to_prefix)
  have 4: "\<not> isPrivateIpLiteral (hostname url)" unfolding hn by (rule isPrivateIpLiteral_bracket)
  have 5: "passesAllowlist [] (hostname url)" by (simp add: passesAllowlist_def)
  from pr 1 2 3 4 5 show ?thesis
    unfolding validateRssUrl_def p by (auto simp: Let_def)
qed

text \<open>
  C1 (the validator rejects every URL whose host is a loopback, link-local, private,
  CGNAT or all-zeros IPv4 literal or an IPv6 loopback, link-local or unique-local literal,
  among them \<open>::1\<close>, \<open>fe80::1\<close> and \<open>fc00::1\<close>): the code does not do this for
  IPv6. The \<open>hostname\<close> of a URL with an IPv6 host carries the square brackets, so
  \<open>net.isIP\<close> returns 0 for it, \<open>isPrivateIpLiteral\<close> returns false before its IPv6
  branch is reached, and with no allowlist the URL is accepted. Evaluated at the three
  IPv6 hosts the specification names:
\<close>

theorem ipv6_literal_urls_accepted:
  "validateRssUrl newURL_samples [] (js ''http://[::1]/feed.xml'') = Accepted (js ''http://[::1]/feed.xml'')
   \<and> validateRssUrl newURL_samples [] (js ''http://[fe80::1]/feed.xml'') = Accepted (js ''http://[fe80::1]/feed.xml'')
   \<and> validateRssUrl newURL_samples [] (js ''http://[fc00::1]/feed.xml'') = Accepted (js ''http://[fc00::1]/feed.xml'')"
  by (simp add: validator_eval)

text \<open>
  C2: with the allowlist \<open>example.com\<close> the validator accepts
  \<open>https://sub.example.com/feed.xml\<close> and rejects \<open>https://evilexample.com/feed.xml\<close>;
  and whenever a non-empty allowlist is configured, an accepted URL has a hostname whose
  lower-case form is an allowlist entry or ends with a dot followed by an entry (the
  entries are lower-cased when the configuration is read).
\<close>

theorem allowlist_suffix_match:
  "validateRssUrl newURL_samples (RSS_DOMAIN_ALLOWLIST (js ''example.com'')) (js ''https://sub.example.com/feed.xml'')
      = Accepted (js ''https://sub.example.com/feed.xml'')
   \<and> validateRssUrl newURL_samples (RSS_DOMAIN_ALLOWLIST (js ''example.com'')) (js ''https://evilexample.com/feed.xml'')
      = Rejected (js ''Hostname not in allowlist'')
   \<and> (allowlist \<noteq> [] \<and> validateRssUrl newURL allowlist inputUrl = Accepted u \<longrightarrow>
        (\<exists>url allowed p. newURL inputUrl = Some url \<and> allowed \<in> set allowlist
            \<and> (toLowerCase (hostname url) = allowed
                \<or> toLowerCase (hostname url) = p @ js ''.'' @ allowed)))"
proof (intro conjI impI)
  show "validateRssUrl newURL_samples (RSS_DOMAIN_ALLOWLIST (js ''example.com'')) (js ''https://sub.example.com/feed.xml'')
      = Accepted (js ''https://sub.example.com/feed.xml'')"
    by (simp add: validator_eval)
  show "validateRssUrl newURL_samples (RSS_DOMAIN_ALLOWLIST (js ''example.com'')) (js ''https://evilexample.com/feed.xml'')
      = Rejected (js ''Hostname not in allowlist'')"
    by (simp add: validator_eval)
next
  assume a: "allowlist \<noteq> [] \<and> validateRssUrl newURL allowlist inputUrl = Accepted u"
  then obtain url where u: "newURL inputUrl = Some url" and p: "passesAllowlist allowlist (hostname url)"
    using accepted_passes by blast
  from a p obtain allowed q where "allowed \<in> set allowlist"
    and "toLowerCase (hostname url) = allowed \<or> toLowerCase (hostname url) = q @ js ''.'' @ allowed"
    using passesAllowlist_match by blast
  with u show "\<exists>url allowed p. newURL inputUrl = Some url \<and> allowed \<in> set allowlist
            \<and> (toLowerCase (hostname url) = allowed
                \<or> toLowerCase (hostname url) = p @ js ''.'' @ allowed)"
    by (intro exI [of _ url] exI [of _ allowed] exI [of _ q]) simp
qed

theorem allowlist_suffix_match_witness:
  "RSS_DOMAIN_ALLOWLIST (js ''example.com'') \<noteq> []
   \<and> validateRssUrl newURL_samples (RSS_DOMAIN_ALLOWLIST (js ''example.com'')) (js ''https://sub.example.com/feed.xml'')
        = Accepted (js ''https://sub.example.com/feed.xml'')
   \<and> (\<exists>url allowed p. newURL_samples (js ''https://sub.example.com/feed.xml'') = Some url
          \<and> allowed \<in> set (RSS_DOMAIN_ALLOWLIST (js ''example.com''))
          \<and> (toLowerCase (hostname url) = allowed \<or> toLowerCase (hostname url) = p @ js ''.'' @ allowed))"
proof -
  have n: "RSS_DOMAIN_ALLOWLIST (js ''example.com'') \<noteq> []" by (simp add: validator_eval)
  note t = allowlist_suffix_match [of "RSS_DOMAIN_ALLOWLIST (js ''example.com'')" newURL_samples
      "js ''https://sub.example.com/feed.xml''" "js ''https://sub.example.com/feed.xml''"]
  from t have v: "validateRssUrl newURL_samples (RSS_DOMAIN_ALLOWLIST (js ''example.com'')) (js ''https://sub.example.com/feed.xml'')
        = Accepted (js ''https://sub.example.com/feed.xml'')" by (rule conjunct1)
  from t have "RSS_DOMAIN_ALLOWLIST (js ''example.com'') \<noteq> [] \<and> validateRssUrl newURL_samples (RSS_DOMAIN_ALLOWLIST (js ''example.com'')) (js ''https://sub.example.com/feed.xml'')
        = Accepted (js ''https://sub.example.com/feed.xml'') \<longrightarrow> (\<exists>url allowed p. newURL_samples (js ''https://sub.example.com/feed.xml'') = Some url
          \<and> allowed \<in> set (RSS_DOMAIN_ALLOWLIST (js ''example.com''))
          \<and> (toLowerCase (hostname url) = allowed \<or> toLowerCase (hostname url) = p @ js ''.'' @ allowed))"
    by (rule conjunct2 [THEN conjunct2])
  with n v show ?thesis by (intro conjI) (assumption | rule mp, assumption, rule conjI, assumption+)+
qed

section \<open>Properties of the feed cache\<close>

lemma getFeed_hit:
  assumes "cache st (stableHash rssUrl) = Some e" and "now - at e < ttl"
  shows "getFeed stableHash ttl parseURL now st rssUrl False = (Inr (feed e), st)"
  using assms by (simp add: getFeed_def Let_def)

lemma getFeed_fetch_ok:
  assumes "force \<or> (\<forall>e. cache st (stableHash rssUrl) = Some e \<longrightarrow> \<not> now - at e < ttl)"
    and "parseURL rssUrl = Inr fd"
  shows "getFeed stableHash ttl parseURL now st rssUrl force
           = (Inr fd, st\<lparr>cache := (cache st)(stableHash rssUrl \<mapsto> \<lparr>at = now, feed = fd\<rparr>),
                        upstream := upstream st @ [rssUrl]\<rparr>)"
  using assms by (auto simp: getFeed_def Let_def split: option.splits)

lemma getFeed_fetch_fail:
  assumes "force \<or> (\<forall>e. cache st (stableHash rssUrl) = Some e \<longrightarrow> \<not> now - at e < ttl)"
    and "parseURL rssUrl = Inl err"
  shows "getFeed stableHash ttl parseURL now st rssUrl force
           = (Inl err, st\<lparr>upstream := upstream st @ [rssUrl]\<rparr>)"
  using assms by (auto simp: getFeed_def Let_def split: option.splits)

text \<open>
  C3: two calls of \<open>getFeed\<close> for one URL without \<open>force\<close>. When the first call goes
  upstream (there is no fresh entry for the URL) and its fetch succeeds, and the second
  call reads a clock less than the TTL after the time stamp of that fetch (the value of
  \<open>Date.now()\<close> the first call stored as \<open>at\<close>), then both calls return the fetched
  feed and the collaborator has been invoked exactly once, whatever it would have
  answered the second time. A call with \<open>force\<close> invokes the collaborator whatever the
  cache holds.
\<close>

theorem cache_fetches_once_within_ttl:
  "(((\<forall>e. cache st (stableHash rssUrl) = Some e \<longrightarrow> \<not> now1 - at e < ttl)
      \<and> parseURL1 rssUrl = Inr fd \<and> now2 - now1 < ttl) \<longrightarrow>
     (case getFeed stableHash ttl parseURL1 now1 st rssUrl False of
        (r1, st1) \<Rightarrow>
          (case getFeed stableHash ttl parseURL2 now2 st1 rssUrl False of
             (r2, st2) \<Rightarrow> r1 = Inr fd \<and> r2 = Inr fd \<and> upstream st2 = upstream st @ [rssUrl])))
   \<and> upstream (snd (getFeed stableHash ttl parseURL now st rssUrl True)) = upstream st @ [rssUrl]"
proof (intro conjI impI)
  assume a: "(\<forall>e. cache st (stableHash rssUrl) = Some e \<longrightarrow> \<not> now1 - at e < ttl)
      \<and> parseURL1 rssUrl = Inr fd \<and> now2 - now1 < ttl"
  let ?st1 = "st\<lparr>cache := (cache st)(stableHash rssUrl \<mapsto> \<lparr>at = now1, feed = fd\<rparr>),
                        upstream := upstream st @ [rssUrl]\<rparr>"
  from a have f: "getFeed stableHash ttl parseURL1 now1 st rssUrl False = (Inr fd, ?st1)"
    by (intro getFeed_fetch_ok) simp_all
  from a have h: "getFeed stableHash ttl parseURL2 now2 ?st1 rssUrl False = (Inr fd, ?st1)"
    by (simp add: getFeed_def Let_def)
  show "case getFeed stableHash ttl parseURL1 now1 st rssUrl False of
        (r1, st1) \<Rightarrow>
          (case getFeed stableHash ttl parseURL2 now2 st1 rssUrl False of
             (r2, st2) \<Rightarrow> r1 = Inr fd \<and> r2 = Inr fd \<and> upstream st2 = upstream st @ [rssUrl])"
    unfolding f prod.case h by simp
next
  show "upstream (snd (getFeed stableHash ttl parseURL now st rssUrl True)) = upstream st @ [rssUrl]"
    by (simp add: getFeed_def Let_def split: option.splits sum.splits)
qed

theorem cache_fetches_once_within_ttl_witness:
  "cache emptyStore (id (js ''https://example.com/feed.xml'')) = None
   \<and> sampleFetch (js ''https://example.com/feed.xml'') = Inr 7 \<and> (2000::int) - 1000 < 300000
   \<and> (case getFeed id 300000 sampleFetch 1000 emptyStore (js ''https://example.com/feed.xml'') False of
        (r1, st1) \<Rightarrow>
          (case getFeed id 300000 failingFetch 2000 st1 (js ''https://example.com/feed.xml'') False of
             (r2, st2) \<Rightarrow> r1 = Inr 7 \<and> r2 = Inr 7
                \<and> upstream st2 = upstream emptyStore @ [js ''https://example.com/feed.xml'']))"
proof -
  have 0: "cache emptyStore (id (js ''https://example.com/feed.xml'')) = None"
    by (simp add: emptyStore_def)
  then have 1: "\<forall>e. cache emptyStore (id (js ''https://example.com/feed.xml'')) = Some e \<longrightarrow> \<not> 1000 - at e < 300000"
    by simp
  have 2: "sampleFetch (js ''https://example.com/feed.xml'') = Inr 7" by (simp add: sampleFetch_def)
  have 3: "(2000::int) - 1000 < 300000" by simp
  note t = cache_fetches_once_within_ttl [of emptyStore id "js ''https://example.com/feed.xml''" 1000
      300000 sampleFetch 7 2000 failingFetch, THEN conjunct1, rule_format]
  from 1 2 3 have 4: "(\<forall>e. cache emptyStore (id (js ''https://example.com/feed.xml'')) = Some e \<longrightarrow> \<not> 1000 - at e < 300000)
   \<and> sampleFetch (js ''https://example.com/feed.xml'') = Inr 7 \<and> (2000::int) - 1000 < 300000"
    by (intro conjI)
  from 0 2 3 t [OF 4] show ?thesis by (intro conjI)
qed

text \<open>
  C4: when an entry exists for the URL and a fetch is attempted (forced, or because the
  entry is stale) and fails, the call returns the error and leaves the cache as it was, so
  a later call without \<open>force\<close> that is within the TTL of the entry's time stamp returns
  the entry's feed and does not go upstream. On a cold cache a failed fetch returns the
  error, and the cache stays empty for that URL.
\<close>

theorem failed_refresh_keeps_entry:
  "(cache st (stableHash rssUrl) = Some e \<and> parseURL rssUrl = Inl err
      \<and> (force \<or> \<not> now - at e < ttl) \<longrightarrow>
     (case getFeed stableHash ttl parseURL now st rssUrl force of
        (r, st') \<Rightarrow> r = Inl err \<and> cache st' = cache st
          \<and> (now2 - at e < ttl \<longrightarrow>
               getFeed stableHash ttl parseURL2 now2 st' rssUrl False = (Inr (feed e), st'))))
   \<and> (cache st (stableHash rssUrl) = None \<and> parseURL rssUrl = Inl err \<longrightarrow>
     (case getFeed stableHash ttl parseURL now st rssUrl force of
        (r, st') \<Rightarrow> r = Inl err \<and> cache st' = cache st))"
proof (intro conjI impI)
  assume a: "cache st (stableHash rssUrl) = Some e \<and> parseURL rssUrl = Inl err
      \<and> (force \<or> \<not> now - at e < ttl)"
  let ?st' = "st\<lparr>upstream := upstream st @ [rssUrl]\<rparr>"
  from a have f: "getFeed stableHash ttl parseURL now st rssUrl force = (Inl err, ?st')"
    by (intro getFeed_fetch_fail) auto
  from a have c: "cache ?st' (stableHash rssUrl) = Some e" by simp
  from c have "now2 - at e < ttl \<longrightarrow> getFeed stableHash ttl parseURL2 now2 ?st' rssUrl False = (Inr (feed e), ?st')"
    by (simp add: getFeed_def Let_def)
  then show "case getFeed stableHash ttl parseURL now st rssUrl force of
        (r, st') \<Rightarrow> r = Inl err \<and> cache st' = cache st
          \<and> (now2 - at e < ttl \<longrightarrow>
               getFeed stableHash ttl parseURL2 now2 st' rssUrl False = (Inr (feed e), st'))"
    unfolding f prod.case by simp
next
  assume a: "cache st (stableHash rssUrl) = None \<and> parseURL rssUrl = Inl err"
  then have f: "getFeed stableHash ttl parseURL now st rssUrl force = (Inl err, st\<lparr>upstream := upstream st @ [rssUrl]\<rparr>)"
    by (intro getFeed_fetch_fail) auto
  show "case getFeed stableHash ttl parseURL now st rssUrl force of
        (r, st') \<Rightarrow> r = Inl err \<and> cache st' = cache st"
    unfolding f prod.case by simp
qed

theorem failed_refresh_keeps_entry_witness:
  "cache sampleStore (id (js ''https://example.com/feed.xml'')) = Some \<lparr>at = 1000, feed = 7\<rparr>
   \<and> failingFetch (js ''https://example.com/feed.xml'') = Inl (UpstreamError (js ''ETIMEDOUT''))
   \<and> (2000::int) - 1000 < 300000 \<and> (3000::int) - 1000 < 300000
   \<and> (case getFeed id 300000 failingFetch 2000 sampleStore (js ''https://example.com/feed.xml'') True of
        (r, st') \<Rightarrow> r = Inl (UpstreamError (js ''ETIMEDOUT'')) \<and> cache st' = cache sampleStore
          \<and> getFeed id 300000 failingFetch 3000 st' (js ''https://example.com/feed.xml'') False = (Inr 7, st'))
   \<and> cache emptyStore (id (js ''https://example.com/feed.xml'')) = None
   \<and> (case getFeed id 300000 failingFetch 2000 emptyStore (js ''https://example.com/feed.xml'') False of
        (r, st') \<Rightarrow> r = Inl (UpstreamError (js ''ETIMEDOUT'')) \<and> cache st' = cache emptyStore)"
proof -
  let ?u = "js ''https://example.com/feed.xml''"
  let ?err = "UpstreamError (js ''ETIMEDOUT'')"
  have 1: "cache sampleStore (id ?u) = Some \<lparr>at = 1000, feed = 7\<rparr>" by (simp add: sampleStore_def)
  have 2: "failingFetch ?u = Inl ?err" by (simp add: failingFetch_def)
  have 3: "cache emptyStore (id ?u) = None" by (simp add: emptyStore_def)
  have 4: "(3000::int) - at \<lparr>at = 1000, feed = 7::nat\<rparr> < 300000" by simp
  note warm = failed_refresh_keeps_entry [where st = sampleStore and stableHash = id and rssUrl = ?u
      and e = "\<lparr>at = 1000, feed = 7\<rparr>" and parseURL = failingFetch and err = ?err and force = True
      and now = 2000 and ttl = 300000 and ?now2.0 = 3000 and ?parseURL2.0 = failingFetch,
      THEN conjunct1, rule_format]
  note cold = failed_refresh_keeps_entry [where st = emptyStore and stableHash = id and rssUrl = ?u
      and parseURL = failingFetch and err = ?err and force = False and now = 2000 and ttl = 300000,
      THEN conjunct2, rule_format]
  from 1 2 have w: "case getFeed id 300000 failingFetch 2000 sampleStore ?u True of
        (r, st') \<Rightarrow> r = Inl ?err \<and> cache st' = cache sampleStore
          \<and> (3000 - at \<lparr>at = 1000, feed = 7::nat\<rparr> < 300000 \<longrightarrow>
              getFeed id 300000 failingFetch 3000 st' ?u False = (Inr (feed \<lparr>at = 1000, feed = 7::nat\<rparr>), st'))"
    by (intro warm) simp_all
  from 3 2 have c: "case getFeed id 300000 failingFetch 2000 emptyStore ?u False of
        (r, st') \<Rightarrow> r = Inl ?err \<and> cache st' = cache emptyStore"
    by (intro cold) simp_all
  from w 4 have w': "case getFeed id 300000 failingFetch 2000 sampleStore ?u True of
        (r, st') \<Rightarrow> r = Inl ?err \<and> cache st' = cache sampleStore
          \<and> getFeed id 300000 failingFetch 3000 st' ?u False = (Inr 7, st')"
    by (simp split: prod.splits)
  from 1 2 3 w' c show ?thesis by simp
qed

section \<open>Properties of kind inference\<close>

lemma extensionAt_iff:
  "extensionAt exts s \<longleftrightarrow>
     (\<exists>e\<in>set exts. \<exists>r. s = js ''.'' @ e @ r \<and> (r = [] \<or> (\<exists>r'. r = 63 # r') \<or> (\<exists>r'. r = 35 # r')))"
proof -
  have d: "js ''.'' = [46]" by (simp add: js_def)
  have "\<And>e. (prefix (46 # e) s \<and> (case drop (Suc (length e)) s of [] \<Rightarrow> True | c # _ \<Rightarrow> c = 63 \<or> c = 35))
        \<longleftrightarrow> (\<exists>r. s = [46] @ e @ r \<and> (r = [] \<or> (\<exists>r'. r = 63 # r') \<or> (\<exists>r'. r = 35 # r')))"
    by (auto simp: prefix_def split: list.splits)
  then show ?thesis unfolding extensionAt_def list_ex_iff d by simp
qed

lemma hasExtension_Cons:
  "hasExtension e (c # cs) \<longleftrightarrow>
     (\<exists>r. c # cs = js ''.'' @ e @ r \<and> (r = [] \<or> (\<exists>r'. r = 63 # r') \<or> (\<exists>r'. r = 35 # r')))
     \<or> hasExtension e cs"
  (is "?L \<longleftrightarrow> ?A \<or> ?B")
proof
  assume ?L
  then obtain p r where u: "c # cs = p @ js ''.'' @ e @ r"
    and t: "r = [] \<or> (\<exists>r'. r = 63 # r') \<or> (\<exists>r'. r = 35 # r')"
    unfolding hasExtension_def by blast
  show "?A \<or> ?B"
  proof (cases p)
    case Nil
    with u t have ?A by auto
    then show ?thesis ..
  next
    case (Cons q qs)
    with u have "cs = qs @ js ''.'' @ e @ r" by simp
    with t have ?B unfolding hasExtension_def by blast
    then show ?thesis ..
  qed
next
  assume "?A \<or> ?B"
  then show ?L
  proof
    assume ?A
    then obtain r where "c # cs = [] @ js ''.'' @ e @ r"
      and "r = [] \<or> (\<exists>r'. r = 63 # r') \<or> (\<exists>r'. r = 35 # r')" by auto
    then show ?L unfolding hasExtension_def by blast
  next
    assume ?B
    then obtain p r where "cs = p @ js ''.'' @ e @ r"
      and t: "r = [] \<or> (\<exists>r'. r = 63 # r') \<or> (\<exists>r'. r = 35 # r')"
      unfolding hasExtension_def by blast
    then have "c # cs = (c # p) @ js ''.'' @ e @ r" by simp
    with t show ?L unfolding hasExtension_def by blast
  qed
qed

lemma matchExtension_iff:
  "matchExtension exts u \<longleftrightarrow> (\<exists>e\<in>set exts. hasExtension e u)"
proof (induction u)
  case Nil
  show ?case by (simp add: hasExtension_def js_def)
next
  case (Cons c cs)
  have "(\<exists>e\<in>set exts. hasExtension e (c # cs)) \<longleftrightarrow>
        extensionAt exts (c # cs) \<or> (\<exists>e\<in>set exts. hasExtension e cs)"
    unfolding extensionAt_iff hasExtension_Cons by blast
  with Cons show ?case by simp
qed

text \<open>
  C6: kind inference, in priority order, on the lower-cased type and URL: a type that
  begins with \<open>video/\<close> gives video; else a type that begins with \<open>audio/\<close> gives
  audio; else a URL that contains \<open>.m3u8\<close>, or that has the extension \<open>.mp4\<close>,
  \<open>.webm\<close> or \<open>.mov\<close> immediately before an optional query or fragment, gives
  video; else the extensions \<open>.mp3\<close>, \<open>.m4a\<close>, \<open>.aac\<close>, \<open>.ogg\<close>, \<open>.wav\<close>
  give audio; and everything else is audio. An enclosure \<open>a.mp3\<close> of type
  \<open>audio/mpeg\<close> is audio, an enclosure \<open>a.mp4\<close> with an empty type is video.
\<close>

theorem inferKind_priority:
  "inferKind mediaUrl mediaType =
     (let u = toLowerCase (orEmpty mediaUrl); t = toLowerCase (orEmpty mediaType)
      in if (\<exists>r. t = js ''video/'' @ r) then Video
         else if (\<exists>r. t = js ''audio/'' @ r) then Audio
         else if (\<exists>p r. u = p @ js ''.m3u8'' @ r) then Video
         else if hasExtension (js ''mp4'') u \<or> hasExtension (js ''webm'') u \<or> hasExtension (js ''mov'') u
           then Video
         else if hasExtension (js ''mp3'') u \<or> hasExtension (js ''m4a'') u \<or> hasExtension (js ''aac'') u
                 \<or> hasExtension (js ''ogg'') u \<or> hasExtension (js ''wav'') u
           then Audio
         else Audio)
   \<and> inferKind (Some (js ''a.mp3'')) (Some (js ''audio/mpeg'')) = Audio
   \<and> inferKind (Some (js ''a.mp4'')) (Some (js '''')) = Video"
proof (intro conjI)
  have v: "matchExtension videoExtensions u \<longleftrightarrow>
      hasExtension (js ''mp4'') u \<or> hasExtension (js ''webm'') u \<or> hasExtension (js ''mov'') u" for u
    unfolding matchExtension_iff videoExtensions_def by auto
  show "inferKind mediaUrl mediaType =
     (let u = toLowerCase (orEmpty mediaUrl); t = toLowerCase (orEmpty mediaType)
      in if (\<exists>r. t = js ''video/'' @ r) then Video
         else if (\<exists>r. t = js ''audio/'' @ r) then Audio
         else if (\<exists>p r. u = p @ js ''.m3u8'' @ r) then Video
         else if hasExtension (js ''mp4'') u \<or> hasExtension (js ''webm'') u \<or> hasExtension (js ''mov'') u
           then Video
         else if hasExtension (js ''mp3'') u \<or> hasExtension (js ''m4a'') u \<or> hasExtension (js ''aac'') u
                 \<or> hasExtension (js ''ogg'') u \<or> hasExtension (js ''wav'') u
           then Audio
         else Audio)"
    unfolding inferKind_def Let_def v prefix_def sublist_def by simp
  show "inferKind (Some (js ''a.mp3'')) (Some (js ''audio/mpeg'')) = Audio"
    by (simp add: inferKind_def orEmpty_def toLowerCase_def lowerUnit_def js_def)
  show "inferKind (Some (js ''a.mp4'')) (Some (js '''')) = Video"
    by (simp add: inferKind_def orEmpty_def toLowerCase_def lowerUnit_def js_def videoExtensions_def
        extensionAt_def Let_def)
qed

section \<open>Properties of the episode list\<close>

lemmas normalizer_eval = episodes_def slice0_def toEpisode_def pickMedia_def pickImageUrl_def firstAttrs_def
  inferKind_def safeTruncate_def stripHtml_def trim_def isSpace_def normalizeToHttps_def
  truthy_def orEmpty_def toLowerCase_def lowerUnit_def js_def emptyItem_def toISOString_samples_def
  videoExtensions_def audioExtensions_def extensionAt_def Let_def ellipsis_def
  truthyValue_def orEmptyValue_def stringReceiver_def

lemma stringReceiver_Inr: "stringReceiver v = Inr s \<longleftrightarrow> v = Str s"
  by (cases v) (simp_all add: stringReceiver_def)

lemma toEpisode_fields:
  assumes "toEpisode toISOString idx it = Inr e"
  shows "e_id e = idx" and "orEmptyValue (m_url (pickMedia it)) = Str (e_mediaUrl e)"
    and "pickImageUrl it = Inr (e_imageUrl e)"
    and "e_title e = (if truthyValue (title it) then title it else Str (js ''Untitled Episode''))"
    and "e_duration e = orEmptyValue (duration it)" and "e_link e = orEmptyValue (link it)"
    and "e_mediaType e = m_type (pickMedia it)"
    and "e_kind e = inferKind (Some (e_mediaUrl e)) (Some (m_type (pickMedia it)))"
    and "e_description e = safeTruncate (if truthy (contentSnippet it) then orEmpty (contentSnippet it)
                                  else orEmpty (content it)) 1000"
    and "\<not> truthy (isoDate it) \<Longrightarrow> e_date e = orEmptyValue (pubDate it)"
proof -
  from assms obtain u d img where u: "stringReceiver (orEmptyValue (m_url (pickMedia it))) = Inr u"
    and d: "(if truthy (isoDate it) then map_option Str (toISOString (orEmpty (isoDate it)))
             else Some (orEmptyValue (pubDate it))) = Some d"
    and img: "pickImageUrl it = Inr img"
    and e: "e = \<lparr>e_id = idx,
                  e_title = (if truthyValue (title it) then title it else Str (js ''Untitled Episode'')),
                  e_date = d,
                  e_description =
                    safeTruncate (if truthy (contentSnippet it) then orEmpty (contentSnippet it)
                                  else orEmpty (content it)) 1000,
                  e_mediaUrl = u,
                  e_mediaType = m_type (pickMedia it),
                  e_kind = inferKind (Some u) (Some (m_type (pickMedia it))),
                  e_imageUrl = img,
                  e_duration = orEmptyValue (duration it),
                  e_link = orEmptyValue (link it)\<rparr>"
    unfolding toEpisode_def Let_def by (auto split: sum.splits option.splits)
  from u have u': "orEmptyValue (m_url (pickMedia it)) = Str u" by (simp add: stringReceiver_Inr)
  show "e_id e = idx" by (simp add: e)
  show "orEmptyValue (m_url (pickMedia it)) = Str (e_mediaUrl e)" by (simp add: e u')
  show "pickImageUrl it = Inr (e_imageUrl e)" by (simp add: e img)
  show "e_title e = (if truthyValue (title it) then title it else Str (js ''Untitled Episode''))"
    by (simp add: e)
  show "e_duration e = orEmptyValue (duration it)" by (simp add: e)
  show "e_link e = orEmptyValue (link it)" by (simp add: e)
  show "e_mediaType e = m_type (pickMedia it)" by (simp add: e)
  show "e_kind e = inferKind (Some (e_mediaUrl e)) (Some (m_type (pickMedia it)))" by (simp add: e)
  show "e_description e = safeTruncate (if truthy (contentSnippet it) then orEmpty (contentSnippet it)
                                  else orEmpty (content it)) 1000" by (simp add: e)
  show "e_date e = orEmptyValue (pubDate it)" if "\<not> truthy (isoDate it)"
    using that d by (simp add: e)
qed

lemma pickMedia_url:
  assumes "orEmptyValue (m_url (pickMedia it)) = Str s"
  shows "s = selectedMedia it"
proof (cases "truthy (enclosureUrl it)")
  case True
  then have "m_url (pickMedia it) = Str (orEmpty (enclosureUrl it))"
    by (auto simp: pickMedia_def enclosureUrl_def truthy_def split: option.splits)
  with True assms show ?thesis
    by (auto simp: selectedMedia_def orEmptyValue_def truthyValue_def truthy_def orEmpty_def
        split: option.splits if_splits)
next
  case noEnc: False
  show ?thesis
  proof (cases "truthy (mediaContentUrl it)")
    case True
    with noEnc have "m_url (pickMedia it) = Str (orEmpty (mediaContentUrl it))"
      by (auto simp: pickMedia_def enclosureUrl_def mediaContentUrl_def firstAttrs_def truthy_def
          split: option.splits list.splits)
    with True noEnc assms show ?thesis
      by (auto simp: selectedMedia_def orEmptyValue_def truthyValue_def truthy_def orEmpty_def
          split: option.splits if_splits)
  next
    case False
    with noEnc have "m_url (pickMedia it) = orEmptyValue (link it)"
      by (auto simp: pickMedia_def enclosureUrl_def mediaContentUrl_def firstAttrs_def truthy_def
          split: option.splits list.splits)
    with assms have "textOf (link it) = s"
      by (cases "link it") (auto simp: orEmptyValue_def truthyValue_def textOf_def split: if_splits)
    with False noEnc show ?thesis by (simp add: selectedMedia_def)
  qed
qed

lemma toEpisode_mediaUrl:
  "toEpisode toISOString idx it = Inr e \<Longrightarrow> e_mediaUrl e = selectedMedia it"
  using toEpisode_fields(2) pickMedia_url by blast

lemma mapIndexed_ids:
  assumes "mapIndexed (toEpisode toISOString) i xs = Inr rs"
  shows "map e_id (filter (\<lambda>e. e_mediaUrl e \<noteq> []) rs)
           = filter (\<lambda>k. selectedMedia (xs ! (k - i)) \<noteq> []) [i..<i + length xs]"
  using assms
proof (induction xs arbitrary: i rs)
  case Nil
  then show ?case by simp
next
  case (Cons x xs)
  from Cons.prems obtain y ys where y: "toEpisode toISOString i x = Inr y"
    and ys: "mapIndexed (toEpisode toISOString) (Suc i) xs = Inr ys" and rs: "rs = y # ys"
    by (auto split: sum.splits)
  have u: "[i..<i + length (x # xs)] = i # [Suc i..<Suc i + length xs]"
    by (subst upt_rec) simp
  have s: "filter (\<lambda>k. selectedMedia ((x # xs) ! (k - i)) \<noteq> []) [Suc i..<Suc i + length xs]
         = filter (\<lambda>k. selectedMedia (xs ! (k - Suc i)) \<noteq> []) [Suc i..<Suc i + length xs]"
  proof (rule filter_cong)
    fix k assume "k \<in> set [Suc i..<Suc i + length xs]"
    then have "k - i = Suc (k - Suc i)" by auto
    then show "(selectedMedia ((x # xs) ! (k - i)) \<noteq> []) = (selectedMedia (xs ! (k - Suc i)) \<noteq> [])"
      by simp
  qed simp
  from toEpisode_fields(1) [OF y] toEpisode_mediaUrl [OF y]
  have "e_id y = i" "e_mediaUrl y = selectedMedia x" by simp_all
  with Cons.IH [OF ys] show ?case unfolding rs u s [symmetric] by simp
qed

text \<open>
  C5 as amended: every record of the result has a non-empty media URL, and the ids of the
  result are, in order, exactly the positions in the truncated input sequence of the items
  that have a selected media URL (an item without an enclosure URL, a media-content URL and a
  link has none and yields no record); the ids are strictly increasing.
\<close>

theorem episode_ids_are_input_positions:
  "episodes toISOString EP_LIMIT feed_items = Inr rs \<longrightarrow>
     (let xs = slice0 EP_LIMIT (case feed_items of None \<Rightarrow> [] | Some items \<Rightarrow> items)
      in list_all (\<lambda>e. e_mediaUrl e \<noteq> []) rs
         \<and> map e_id rs = filter (\<lambda>i. selectedMedia (xs ! i) \<noteq> []) [0..<length xs]
         \<and> sorted_wrt (<) (map e_id rs))"
proof
  assume a: "episodes toISOString EP_LIMIT feed_items = Inr rs"
  let ?xs = "slice0 EP_LIMIT (case feed_items of None \<Rightarrow> [] | Some items \<Rightarrow> items)"
  from a obtain ys where ys: "mapIndexed (toEpisode toISOString) 0 ?xs = Inr ys"
    and rs: "rs = filter (\<lambda>e. e_mediaUrl e \<noteq> []) ys"
    by (auto simp: episodes_def split: sum.splits)
  have 1: "list_all (\<lambda>e. e_mediaUrl e \<noteq> []) rs" unfolding rs by (simp add: list_all_iff)
  from mapIndexed_ids [OF ys]
  have 2: "map e_id rs = filter (\<lambda>i. selectedMedia (?xs ! i) \<noteq> []) [0..<length ?xs]"
    unfolding rs by simp
  have "sorted_wrt (<) (filter (\<lambda>i. selectedMedia (?xs ! i) \<noteq> []) [0..<length ?xs])"
    by (rule sorted_wrt_filter) (simp add: sorted_wrt_upt)
  with 2 have 3: "sorted_wrt (<) (map e_id rs)" by simp
  from 1 2 3 show "let xs = ?xs in list_all (\<lambda>e. e_mediaUrl e \<noteq> []) rs
         \<and> map e_id rs = filter (\<lambda>i. selectedMedia (xs ! i) \<noteq> []) [0..<length xs]
         \<and> sorted_wrt (<) (map e_id rs)"
    unfolding Let_def by (intro conjI)
qed

text \<open>
  C5 (every record without a media URL is dropped, and the id of each surviving record is
  its position in the filtered output, so that the ids are 0, 1, 2, ... without gaps):
  the first half holds. The ids do not: \<open>idx\<close> is assigned by \<open>map\<close> before
  \<open>filter\<close> runs, so an id is the position of the item in the truncated input, and a
  dropped item leaves a gap. Here the first of two items has no media URL, and the one
  record of the result has id 1.
\<close>

theorem episode_ids_gap_counterexample:
  "episodes toISOString_samples 100 (Some [emptyItem, emptyItem\<lparr>link := Str (js ''http://a/b.mp4'')\<rparr>])
     = Inr [\<lparr>e_id = 1, e_title = Str (js ''Untitled Episode''), e_date = Str [], e_description = [],
             e_mediaUrl = js ''http://a/b.mp4'', e_mediaType = [], e_kind = Video, e_imageUrl = [],
             e_duration = Str [], e_link = Str (js ''http://a/b.mp4'')\<rparr>]"
  by (simp add: normalizer_eval)

theorem episode_ids_are_input_positions_witness:
  "episodes toISOString_samples 100 (Some [emptyItem, emptyItem\<lparr>link := Str (js ''http://a/b.mp4'')\<rparr>])
     = Inr [\<lparr>e_id = 1, e_title = Str (js ''Untitled Episode''), e_date = Str [], e_description = [],
             e_mediaUrl = js ''http://a/b.mp4'', e_mediaType = [], e_kind = Video, e_imageUrl = [],
             e_duration = Str [], e_link = Str (js ''http://a/b.mp4'')\<rparr>]
   \<and> map e_id [\<lparr>e_id = 1, e_title = Str (js ''Untitled Episode''), e_date = Str [], e_description = [],
             e_mediaUrl = js ''http://a/b.mp4'', e_mediaType = [], e_kind = Video, e_imageUrl = [],
             e_duration = Str [], e_link = Str (js ''http://a/b.mp4'')\<rparr>]
       = filter (\<lambda>i. selectedMedia ([emptyItem, emptyItem\<lparr>link := Str (js ''http://a/b.mp4'')\<rparr>] ! i) \<noteq> []) [0, 1]"
proof -
  let ?items = "[emptyItem, emptyItem\<lparr>link := Str (js ''http://a/b.mp4'')\<rparr>]"
  let ?rs = "[\<lparr>e_id = 1, e_title = Str (js ''Untitled Episode''), e_date = Str [], e_description = [],
             e_mediaUrl = js ''http://a/b.mp4'', e_mediaType = [], e_kind = Video, e_imageUrl = [],
             e_duration = Str [], e_link = Str (js ''http://a/b.mp4'')\<rparr>]"
  have a: "episodes toISOString_samples 100 (Some ?items) = Inr ?rs"
    by (simp add: normalizer_eval)
  have s: "slice0 100 (case Some ?items of None \<Rightarrow> [] | Some items \<Rightarrow> items) = ?items"
    by (simp add: slice0_def)
  have l: "[0..<length ?items] = [0, 1]" by (simp add: upt_rec)
  from episode_ids_are_input_positions [of toISOString_samples 100 "Some ?items" ?rs, rule_format, OF a]
  have "map e_id ?rs = filter (\<lambda>i. selectedMedia (?items ! i) \<noteq> []) [0, 1]"
    unfolding s Let_def l by (rule conjunct2 [THEN conjunct1])
  with a show ?thesis by (intro conjI)
qed

section \<open>Properties of the fields of a record\<close>

lemma replaceFirst_prefix:
  "prefix pat s \<Longrightarrow> replaceFirst pat rep s = rep @ drop (length pat) s"
  by (cases s) simp_all

lemma normalizeToHttps_upgrade:
  "normalizeToHttps x = (if prefix (js ''http://'') x then js ''https://'' @ drop 7 x else x)"
proof -
  have l: "length (js ''http://'') = 7" by (simp add: js_def)
  show ?thesis
    unfolding normalizeToHttps_def
    by (auto simp: replaceFirst_prefix l) (simp add: js_def)
qed

lemma pickImageUrl_selected:
  assumes "pickImageUrl it = Inr img"
  shows "img = normalizeToHttps (selectedImage it)"
proof -
  have e: "normalizeToHttps [] = []" by (simp add: normalizeToHttps_def)
  have t: "textOf v = []" if "\<not> truthyValue v" for v
    using that by (cases v) (simp_all add: truthyValue_def textOf_def)
  have r: "textOf v = x" if "stringReceiver v = Inr x" for v x
    using that by (simp add: stringReceiver_Inr textOf_def)
  show ?thesis
  proof (cases "truthy (thumbnailUrl it)")
    case True
    with assms show ?thesis
      unfolding pickImageUrl_def selectedImage_def thumbnailUrl_def firstAttrs_def Let_def
      by (auto split: option.splits list.splits)
  next
    case False
    then have n: "\<not> truthy (case firstAttrs (mediaThumbnail it) of None \<Rightarrow> None | Some a \<Rightarrow> a_url a)"
      unfolding thumbnailUrl_def firstAttrs_def by (auto split: option.splits list.splits)
    show ?thesis
    proof (cases "itunesImage it")
      case None
      with assms False n show ?thesis
        by (simp add: pickImageUrl_def selectedImage_def Let_def e)
    next
      case (Some i)
      show ?thesis
      proof (cases i)
        case (ImageString x)
        with assms False n Some show ?thesis
          by (auto simp: pickImageUrl_def selectedImage_def Let_def e)
      next
        case (ImageObject h u)
        with assms False n Some show ?thesis
          by (auto simp: pickImageUrl_def selectedImage_def Let_def e t r
              split: if_splits sum.splits)
      qed
    qed
  qed
qed

text \<open>
  C7 as amended: in the record of an item, the image URL is the selected image URL with a
  leading \<open>http://\<close> replaced by \<open>https://\<close> (the rest of the string untouched and not
  validated again), and the selected image URL itself when it does not begin with
  \<open>http://\<close>; the media URL is the selected media URL, unchanged whatever its scheme.
\<close>

theorem image_url_upgraded_media_url_unchanged:
  "toEpisode toISOString idx it = Inr e \<longrightarrow>
     (prefix (js ''http://'') (selectedImage it) \<longrightarrow>
         e_imageUrl e = js ''https://'' @ drop 7 (selectedImage it))
     \<and> (\<not> prefix (js ''http://'') (selectedImage it) \<longrightarrow> e_imageUrl e = selectedImage it)
     \<and> e_mediaUrl e = selectedMedia it"
proof
  assume a: "toEpisode toISOString idx it = Inr e"
  from pickImageUrl_selected [OF toEpisode_fields(3) [OF a]] toEpisode_mediaUrl [OF a]
  show "(prefix (js ''http://'') (selectedImage it) \<longrightarrow>
         e_imageUrl e = js ''https://'' @ drop 7 (selectedImage it))
     \<and> (\<not> prefix (js ''http://'') (selectedImage it) \<longrightarrow> e_imageUrl e = selectedImage it)
     \<and> e_mediaUrl e = selectedMedia it"
    by (simp add: normalizeToHttps_upgrade)
qed

text \<open>
  C7 (every selected image URL and every selected media URL that begins with \<open>http://\<close>
  is rewritten to begin with \<open>https://\<close>): the image URL is, the media URL is not.
  \<open>normalizeToHttps\<close> is applied in \<open>pickImageUrl\<close> only; \<open>pickMedia\<close> returns the
  URL as the feed has it. An item with an http enclosure and an http image:
\<close>

theorem media_url_not_upgraded_counterexample:
  "toEpisode toISOString_samples 0 httpItem
     = Inr \<lparr>e_id = 0, e_title = Str (js ''Untitled Episode''), e_date = Str [], e_description = [],
            e_mediaUrl = js ''http://a/b.mp3'', e_mediaType = js ''audio/mpeg'', e_kind = Audio,
            e_imageUrl = js ''https://a/c.png'', e_duration = Str [], e_link = Str []\<rparr>"
  by (simp add: normalizer_eval httpItem_def)

theorem image_url_upgraded_media_url_unchanged_witness:
  "toEpisode toISOString_samples 0 httpItem
     = Inr \<lparr>e_id = 0, e_title = Str (js ''Untitled Episode''), e_date = Str [], e_description = [],
            e_mediaUrl = js ''http://a/b.mp3'', e_mediaType = js ''audio/mpeg'', e_kind = Audio,
            e_imageUrl = js ''https://a/c.png'', e_duration = Str [], e_link = Str []\<rparr>
   \<and> prefix (js ''http://'') (selectedImage httpItem)
   \<and> js ''https://a/c.png'' = js ''https://'' @ drop 7 (selectedImage httpItem)
   \<and> js ''http://a/b.mp3'' = selectedMedia httpItem"
proof -
  let ?e = "\<lparr>e_id = 0, e_title = Str (js ''Untitled Episode''), e_date = Str [], e_description = [],
            e_mediaUrl = js ''http://a/b.mp3'', e_mediaType = js ''audio/mpeg'', e_kind = Audio,
            e_imageUrl = js ''https://a/c.png'', e_duration = Str [], e_link = Str []\<rparr>"
  have a: "toEpisode toISOString_samples 0 httpItem = Inr ?e"
    by (simp add: normalizer_eval httpItem_def)
  have p: "prefix (js ''http://'') (selectedImage httpItem)"
    by (simp add: selectedImage_def thumbnailUrl_def httpItem_def emptyItem_def truthy_def js_def)
  from image_url_upgraded_media_url_unchanged [of toISOString_samples 0 httpItem ?e, rule_format, OF a]
  have "(prefix (js ''http://'') (selectedImage httpItem) \<longrightarrow>
         e_imageUrl ?e = js ''https://'' @ drop 7 (selectedImage httpItem))
     \<and> (\<not> prefix (js ''http://'') (selectedImage httpItem) \<longrightarrow> e_imageUrl ?e = selectedImage httpItem)
     \<and> e_mediaUrl ?e = selectedMedia httpItem" .
  with a p show ?thesis by simp
qed

text \<open>
  What the pipeline does on items whose values are strings or absent. When the link and
  the href and url of the iTunes image object of every item (within the limit) are strings
  or absent, and every non-empty \<open>isoDate\<close> is a date string, the episode list is
  computed without an error; and in every record an absent or empty title becomes
  \<open>Untitled Episode\<close>, and absent or empty dates, descriptions, media sources, images,
  durations and links become the empty string, with kind audio when there is no media
  source.
\<close>

lemma toEpisode_total:
  assumes sf: "stringFields it"
    and dt: "truthy (isoDate it) \<longrightarrow> toISOString (orEmpty (isoDate it)) \<noteq> None"
  shows "\<exists>e. toEpisode toISOString idx it = Inr e"
proof -
  have m: "\<exists>u. stringReceiver (orEmptyValue (m_url (pickMedia it))) = Inr u"
  proof -
    from sf have "link it \<noteq> NonString" by (simp add: stringFields_def)
    then have "\<exists>u. orEmptyValue (orEmptyValue (link it)) = Str u"
      by (cases "link it") (simp_all add: orEmptyValue_def truthyValue_def)
    then have "\<exists>u. orEmptyValue (m_url (pickMedia it)) = Str u"
      by (auto simp: pickMedia_def orEmptyValue_def truthyValue_def split: option.splits)
    then show ?thesis by (auto simp: stringReceiver_Inr)
  qed
  have i: "\<exists>img. pickImageUrl it = Inr img"
  proof (cases "itunesImage it")
    case None
    then show ?thesis by (simp add: pickImageUrl_def Let_def)
  next
    case (Some im)
    show ?thesis
    proof (cases im)
      case (ImageString x)
      with Some show ?thesis by (simp add: pickImageUrl_def Let_def)
    next
      case (ImageObject h u)
      with Some sf have "h \<noteq> NonString" "u \<noteq> NonString" by (simp_all add: stringFields_def)
      then have "(\<exists>x. stringReceiver h = Inr x) \<or> \<not> truthyValue h"
        and "(\<exists>x. stringReceiver u = Inr x) \<or> \<not> truthyValue u"
        by (cases h, simp_all add: stringReceiver_def truthyValue_def)
           (cases u, simp_all add: stringReceiver_def truthyValue_def)
      with Some ImageObject show ?thesis by (auto simp: pickImageUrl_def Let_def)
    qed
  qed
  from m i dt show ?thesis
    unfolding toEpisode_def Let_def by (auto split: option.splits)
qed

lemma mapIndexed_total:
  assumes "\<forall>it\<in>set xs. stringFields it
             \<and> (truthy (isoDate it) \<longrightarrow> toISOString (orEmpty (isoDate it)) \<noteq> None)"
  shows "\<exists>rs. mapIndexed (toEpisode toISOString) i xs = Inr rs"
  using assms
proof (induction xs arbitrary: i)
  case Nil
  show ?case by simp
next
  case (Cons x xs)
  from Cons.prems obtain e where e: "toEpisode toISOString i x = Inr e"
    using toEpisode_total [of x toISOString i] by auto
  from Cons.prems Cons.IH [of "Suc i"] obtain rs where "mapIndexed (toEpisode toISOString) (Suc i) xs = Inr rs"
    by auto
  with e show ?case by simp
qed

lemma episodes_total_on_string_fields:
  assumes "\<forall>it \<in> set (slice0 EP_LIMIT (case feed_items of None \<Rightarrow> [] | Some items \<Rightarrow> items)).
             stringFields it
             \<and> (truthy (isoDate it) \<longrightarrow> toISOString (orEmpty (isoDate it)) \<noteq> None)"
  shows "\<exists>rs. episodes toISOString EP_LIMIT feed_items = Inr rs"
  using mapIndexed_total [OF assms, of 0] by (auto simp: episodes_def)

lemma toEpisode_defaults:
  assumes a: "toEpisode toISOString idx it = Inr e"
  shows "\<not> truthyValue (title it) \<Longrightarrow> e_title e = Str (js ''Untitled Episode'')"
    and "\<not> truthy (isoDate it) \<and> \<not> truthyValue (pubDate it) \<Longrightarrow> e_date e = Str []"
    and "\<not> truthy (contentSnippet it) \<and> \<not> truthy (content it) \<Longrightarrow> e_description e = []"
    and "\<not> truthy (enclosureUrl it) \<and> \<not> truthy (mediaContentUrl it) \<and> \<not> truthyValue (link it)
           \<Longrightarrow> e_mediaUrl e = [] \<and> e_mediaType e = [] \<and> e_kind e = Audio"
    and "\<not> truthy (thumbnailUrl it) \<and> itunesImage it = None \<Longrightarrow> e_imageUrl e = []"
    and "\<not> truthyValue (duration it) \<Longrightarrow> e_duration e = Str []"
    and "\<not> truthyValue (link it) \<Longrightarrow> e_link e = Str []"
proof -
  show "\<not> truthyValue (title it) \<Longrightarrow> e_title e = Str (js ''Untitled Episode'')"
    using toEpisode_fields(4) [OF a] by simp
  show "\<not> truthy (isoDate it) \<and> \<not> truthyValue (pubDate it) \<Longrightarrow> e_date e = Str []"
    using toEpisode_fields(10) [OF a] by (simp add: orEmptyValue_def)
  have t: "safeTruncate [] 1000 = []" by (simp add: safeTruncate_def stripHtml_def trim_def)
  show "\<not> truthy (contentSnippet it) \<and> \<not> truthy (content it) \<Longrightarrow> e_description e = []"
    using toEpisode_fields(9) [OF a] t by (auto simp: truthy_def orEmpty_def split: option.splits)
  show "e_mediaUrl e = [] \<and> e_mediaType e = [] \<and> e_kind e = Audio"
    if b: "\<not> truthy (enclosureUrl it) \<and> \<not> truthy (mediaContentUrl it) \<and> \<not> truthyValue (link it)"
  proof -
    from b have m: "pickMedia it = \<lparr>m_url = Str [], m_type = []\<rparr>"
      by (auto simp: pickMedia_def enclosureUrl_def mediaContentUrl_def firstAttrs_def truthy_def
          orEmptyValue_def split: option.splits list.splits)
    have k: "inferKind (Some []) (Some []) = Audio"
      by (simp add: inferKind_def orEmpty_def toLowerCase_def js_def)
    from toEpisode_fields(2) [OF a] m have u: "e_mediaUrl e = []"
      by (simp add: orEmptyValue_def truthyValue_def)
    from toEpisode_fields(7,8) [OF a] m k u show ?thesis by simp
  qed
  show "e_imageUrl e = []" if b: "\<not> truthy (thumbnailUrl it) \<and> itunesImage it = None"
  proof -
    from b have "selectedImage it = []" by (simp add: selectedImage_def)
    with pickImageUrl_selected [OF toEpisode_fields(3) [OF a]] show ?thesis
      by (simp add: normalizeToHttps_def)
  qed
  show "\<not> truthyValue (duration it) \<Longrightarrow> e_duration e = Str []"
    using toEpisode_fields(5) [OF a] by (simp add: orEmptyValue_def)
  show "\<not> truthyValue (link it) \<Longrightarrow> e_link e = Str []"
    using toEpisode_fields(6) [OF a] by (simp add: orEmptyValue_def)
qed

lemma empty_item_defaults:
  "toEpisode toISOString idx emptyItem
     = Inr \<lparr>e_id = idx, e_title = Str (js ''Untitled Episode''), e_date = Str [], e_description = [],
            e_mediaUrl = [], e_mediaType = [], e_kind = Audio, e_imageUrl = [],
            e_duration = Str [], e_link = Str []\<rparr>"
  by (simp add: normalizer_eval)

text \<open>
  C9 (the episode list is computed for every item sequence without throwing, absent
  fields degrading to defaults): the code throws on items that the feed parser delivers.
  It guards every field against absence (\<open>x && x[0] && ...\<close>, \<open>x || ""\<close>,
  \<open>if (!url) return ""\<close>) and tests the type of \<open>itunesImage\<close>, but it calls string
  methods on the link and on the \<open>href\<close> and \<open>url\<close> of an image object without
  testing their type. For \<open><link href="..."/>\<close> the link is an object, and
  \<open>inferKind\<close> throws a TypeError at \<open>toLowerCase\<close>; for an
  \<open><itunes:image>\<close> with an \<open><href>\<close> child the href is an array, and
  \<open>normalizeToHttps\<close> throws a TypeError at \<open>startsWith\<close>. One such item ends the
  whole \<open>map\<close>, and the request fails for the whole feed.
\<close>

theorem non_string_field_throws:
  "episodes toISOString_samples 100 (Some [linkObjectItem]) = Inl TypeError
   \<and> episodes toISOString_samples 100 (Some [httpItem, imageHrefItem]) = Inl TypeError"
  by (simp add: normalizer_eval linkObjectItem_def imageHrefItem_def httpItem_def)

section \<open>Properties of the description\<close>

lemma stripFrom_no_lt: "60 \<notin> set (stripFrom b s)"
  by (induction s arbitrary: b) auto

lemma stripHtml_no_lt: "60 \<notin> set (stripHtml s)"
  by (simp add: stripHtml_def stripFrom_no_lt)

lemma collapseSpaces_set: "set (collapseSpaces s) \<subseteq> insert 32 (set s)"
proof (induction s rule: collapseSpaces.induct)
  case 1
  show ?case by simp
next
  case (2 c cs)
  show ?case
  proof (cases "isSpace c")
    case True
    with 2 have "set (collapseSpaces (dropWhile isSpace cs)) \<subseteq> insert 32 (set (dropWhile isSpace cs))"
      by simp
    moreover have "set (dropWhile isSpace cs) \<subseteq> set cs" by (auto dest: set_dropWhileD)
    ultimately show ?thesis using True by auto
  next
    case False
    with 2 show ?thesis by auto
  qed
qed

lemma trim_prefix_of_dropWhile: "prefix (trim s) (dropWhile isSpace s)"
proof -
  let ?z = "dropWhile isSpace s"
  have "rev (rev ?z) = rev (takeWhile isSpace (rev ?z) @ dropWhile isSpace (rev ?z))"
    by (simp only: takeWhile_dropWhile_id)
  also have "\<dots> = rev (dropWhile isSpace (rev ?z)) @ rev (takeWhile isSpace (rev ?z))"
    by (rule rev_append)
  finally have "?z = trim s @ rev (takeWhile isSpace (rev ?z))"
    unfolding trim_def rev_rev_ident .
  then show ?thesis by (rule prefixI)
qed

lemma trim_set: "set (trim s) \<subseteq> set s"
proof -
  have "set (trim s) \<subseteq> set (dropWhile isSpace s)"
    using trim_prefix_of_dropWhile [of s] by (rule set_mono_prefix)
  moreover have "set (dropWhile isSpace s) \<subseteq> set s" by (auto dest: set_dropWhileD)
  ultimately show ?thesis by blast
qed

lemma spaced_Cons: "spaced (c # z) \<longleftrightarrow> (z = [] \<or> \<not> (isSpace c \<and> isSpace (hd z))) \<and> spaced z"
  by (cases z) auto

lemma collapseSpaces_hd:
  "s \<noteq> [] \<Longrightarrow> \<not> isSpace (hd s) \<Longrightarrow> collapseSpaces s \<noteq> [] \<and> hd (collapseSpaces s) = hd s"
  by (cases s) auto

lemma spaced_collapseSpaces: "spaced (collapseSpaces s)"
proof (induction s rule: collapseSpaces.induct)
  case 1
  show ?case by simp
next
  case (2 c cs)
  show ?case
  proof (cases "isSpace c")
    case True
    let ?y = "dropWhile isSpace cs"
    from 2 True have ih: "spaced (collapseSpaces ?y)" by simp
    have "collapseSpaces ?y = [] \<or> \<not> isSpace (hd (collapseSpaces ?y))"
    proof (cases "?y = []")
      case True
      have "collapseSpaces [] = []" by simp
      with True show ?thesis by (simp only:) simp
    next
      case False
      then have "\<not> isSpace (hd ?y)" by (rule hd_dropWhile)
      with False collapseSpaces_hd [of ?y] show ?thesis by simp
    qed
    with ih True show ?thesis by (simp add: spaced_Cons)
  next
    case False
    with 2 show ?thesis by (simp add: spaced_Cons)
  qed
qed

lemma spaced_append: "spaced (xs @ ys) \<Longrightarrow> spaced xs \<and> spaced ys"
proof (induction xs)
  case Nil
  then show ?case by simp
next
  case (Cons x xs)
  then show ?case by (cases xs) (auto simp: spaced_Cons)
qed

lemma spaced_prefix: "prefix xs ys \<Longrightarrow> spaced ys \<Longrightarrow> spaced xs"
proof -
  assume "prefix xs ys" and s: "spaced ys"
  then obtain r where "ys = xs @ r" by (auto simp: prefix_def)
  with s have "spaced (xs @ r)" by simp
  then show "spaced xs" using spaced_append by blast
qed

lemma spaced_dropWhile: "spaced s \<Longrightarrow> spaced (dropWhile P s)"
  using spaced_append [of "takeWhile P s" "dropWhile P s"] by simp

lemma spaced_trim: "spaced s \<Longrightarrow> spaced (trim s)"
  using spaced_prefix [OF trim_prefix_of_dropWhile] spaced_dropWhile by blast

lemma trim_hd: "trim s \<noteq> [] \<Longrightarrow> \<not> isSpace (hd (trim s))"
proof -
  assume n: "trim s \<noteq> []"
  from trim_prefix_of_dropWhile [of s] obtain r where z: "dropWhile isSpace s = trim s @ r"
    by (auto simp: prefix_def)
  with n have "dropWhile isSpace s \<noteq> []" by simp
  then have "\<not> isSpace (hd (dropWhile isSpace s))" by (rule hd_dropWhile)
  with z n show ?thesis by simp
qed

lemma trim_tidy:
  assumes sp: "spaced t" and ne: "t \<noteq> []" and h: "\<not> isSpace (hd t)"
  shows "trim t = (if isSpace (last t) then butlast t else t)"
proof -
  from ne h have d: "dropWhile isSpace t = t" by (simp add: dropWhile_eq_self_iff)
  from ne obtain u a where t: "t = u @ [a]" by (cases t rule: rev_cases) auto
  have tr: "trim t = rev (dropWhile isSpace (a # rev u))"
    unfolding trim_def d unfolding t by simp
  show ?thesis
  proof (cases "isSpace a")
    case False
    with tr have "trim t = u @ [a]" by simp
    with False t show ?thesis by simp
  next
    case True
    have "u \<noteq> []"
    proof
      assume "u = []"
      with t have "hd t = a" by simp
      with h True show False by simp
    qed
    then obtain v b where u: "u = v @ [b]" by (cases u rule: rev_cases) auto
    from sp t u have "spaced (v @ [b, a])" by simp
    then have "spaced [b, a]" using spaced_append by blast
    with True have nb: "\<not> isSpace b" by simp
    from tr True have "trim t = rev (dropWhile isSpace (rev u))" by simp
    also have "\<dots> = rev (dropWhile isSpace (b # rev v))" unfolding u by simp
    also from nb have "\<dots> = u" unfolding u by simp
    finally show ?thesis using True t by simp
  qed
qed

lemma tidy_no_lt: "60 \<notin> set (trim (collapseSpaces (stripHtml str)))"
proof -
  have "set (trim (collapseSpaces (stripHtml str))) \<subseteq> insert 32 (set (stripHtml str))"
    using trim_set collapseSpaces_set by blast
  with stripHtml_no_lt [of str] show ?thesis by auto
qed

lemma trim_take:
  assumes s: "s = trim x" and sp: "spaced x" and n: "n < length s"
  shows "prefix (trim (take n s)) s
         \<and> length (trim (take n s)) = (if 0 < n \<and> isSpace (s ! (n - 1)) then n - 1 else n)"
proof (cases "n = 0")
  case True
  then show ?thesis by (simp add: trim_def)
next
  case False
  let ?t = "take n s"
  from n False have ne: "?t \<noteq> []" by auto
  from n have sne: "s \<noteq> []" by auto
  have p: "prefix ?t s" by (rule take_is_prefix)
  from sp have "spaced s" unfolding s by (rule spaced_trim)
  with p have spt: "spaced ?t" by (rule spaced_prefix)
  from sne have "\<not> isSpace (hd s)" unfolding s by (rule trim_hd)
  moreover from False have "hd ?t = hd s" by simp
  ultimately have h: "\<not> isSpace (hd ?t)" by simp
  from n have len: "length ?t = n" by simp
  from ne have "last ?t = ?t ! (length ?t - 1)" by (rule last_conv_nth)
  with len False have l: "last ?t = s ! (n - 1)" by simp
  have tt: "trim ?t = (if isSpace (last ?t) then butlast ?t else ?t)"
    using spt ne h by (rule trim_tidy)
  show ?thesis
  proof (cases "isSpace (s ! (n - 1))")
    case True
    with tt l have e: "trim ?t = butlast ?t" by simp
    have "prefix (butlast ?t) ?t" by (rule prefixeq_butlast)
    then have "prefix (butlast ?t) s" using p by (rule prefix_order.trans)
    moreover from len have "length (butlast ?t) = n - 1" by simp
    ultimately show ?thesis using True False unfolding e by simp
  next
    case no: False
    with tt l have e: "trim ?t = ?t" by simp
    from p len no show ?thesis unfolding e by simp
  qed
qed

text \<open>
  C8 as amended: let \<open>s\<close> be the input with markup stripped, white space collapsed and
  the ends trimmed. If \<open>s\<close> is longer than the budget \<open>n\<close>, the description is a prefix of
  \<open>s\<close> followed by the ellipsis, where the prefix has \<open>n\<close> code units, or \<open>n - 1\<close>
  when the \<open>n\<close>-th code unit of \<open>s\<close> is a space (total length \<open>n + 1\<close> or \<open>n\<close>);
  if \<open>s\<close> is at or under the budget, the description is \<open>s\<close>, without an ellipsis.
  In both cases the description contains no \<open><\<close>, so no markup tag remains.
\<close>

theorem safeTruncate_shape:
  "(let s = trim (collapseSpaces (stripHtml str)); d = safeTruncate str n
    in 60 \<notin> set d
       \<and> (length s \<le> n \<longrightarrow> d = s)
       \<and> (n < length s \<longrightarrow>
            (\<exists>c. d = c @ [ellipsis] \<and> prefix c s
                 \<and> length c = (if 0 < n \<and> isSpace (s ! (n - 1)) then n - 1 else n))))"
proof -
  let ?s = "trim (collapseSpaces (stripHtml str))"
  let ?d = "safeTruncate str n"
  have small: "?d = ?s" if "length ?s \<le> n"
    using that by (auto simp: safeTruncate_def Let_def)
  have big: "?d = trim (take n ?s) @ [ellipsis]" if "n < length ?s"
    using that by (auto simp: safeTruncate_def Let_def)
  have 1: "60 \<notin> set ?d"
  proof (cases "length ?s \<le> n")
    case True
    with small tidy_no_lt [of str] show ?thesis by simp
  next
    case False
    then have b: "?d = trim (take n ?s) @ [ellipsis]" using big by simp
    have "set (trim (take n ?s)) \<subseteq> set ?s"
      using trim_set [of "take n ?s"] set_take_subset [of n ?s] by blast
    with tidy_no_lt [of str] have "60 \<notin> set (trim (take n ?s))" by blast
    then show ?thesis unfolding b by (simp add: ellipsis_def)
  qed
  have 2: "length ?s \<le> n \<longrightarrow> ?d = ?s" using small by blast
  have 3: "n < length ?s \<longrightarrow>
            (\<exists>c. ?d = c @ [ellipsis] \<and> prefix c ?s
                 \<and> length c = (if 0 < n \<and> isSpace (?s ! (n - 1)) then n - 1 else n))"
  proof
    assume n: "n < length ?s"
    from trim_take [OF refl spaced_collapseSpaces n] big [OF n]
    show "\<exists>c. ?d = c @ [ellipsis] \<and> prefix c ?s
                 \<and> length c = (if 0 < n \<and> isSpace (?s ! (n - 1)) then n - 1 else n)"
      by (intro exI [of _ "trim (take n ?s)"]) simp
  qed
  from 1 2 3 show ?thesis unfolding Let_def by (intro conjI)
qed

lemmas truncate_eval = safeTruncate_def stripHtml_def trim_def isSpace_def js_def ellipsis_def Let_def

text \<open>
  C8 (a description whose stripped and collapsed form is longer than the budget \<open>n\<close> is
  cut to exactly \<open>n\<close> characters plus the ellipsis, \<open>n + 1\<close> in all): the code trims
  the cut text before it appends the ellipsis (\<open>s.slice(0, n).trim() + "..."\<close>), so when
  the cut falls right after a space, that space goes too. With budget 3, \<open>ab cd\<close> becomes
  \<open>ab\<close> and the ellipsis: three code units, not four.
\<close>

theorem truncation_trims_counterexample:
  "3 < length (trim (collapseSpaces (stripHtml (js ''ab cd''))))
   \<and> safeTruncate (js ''ab cd'') 3 = js ''ab'' @ [ellipsis]
   \<and> length (safeTruncate (js ''ab cd'') 3) \<noteq> 3 + 1"
  by (simp add: truncate_eval)

theorem safeTruncate_shape_witness:
  "3 < length (trim (collapseSpaces (stripHtml (js ''<p>ab <i>cd</i></p>''))))
   \<and> isSpace (trim (collapseSpaces (stripHtml (js ''<p>ab <i>cd</i></p>''))) ! (3 - 1))
   \<and> (\<exists>c. safeTruncate (js ''<p>ab <i>cd</i></p>'') 3 = c @ [ellipsis]
          \<and> prefix c (trim (collapseSpaces (stripHtml (js ''<p>ab <i>cd</i></p>'')))) \<and> length c = 2)"
proof -
  let ?str = "js ''<p>ab <i>cd</i></p>''"
  let ?s = "trim (collapseSpaces (stripHtml ?str))"
  have s: "?s = js ''ab cd''" by (simp add: truncate_eval)
  have n: "3 < length ?s" unfolding s by (simp add: js_def)
  have sp: "isSpace (?s ! (3 - 1))" unfolding s by (simp add: js_def isSpace_def)
  from safeTruncate_shape [of ?str 3]
  have "3 < length ?s \<longrightarrow>
            (\<exists>c. safeTruncate ?str 3 = c @ [ellipsis] \<and> prefix c ?s
                 \<and> length c = (if 0 < (3::nat) \<and> isSpace (?s ! (3 - 1)) then 3 - 1 else 3))"
    unfolding Let_def by (rule conjunct2 [THEN conjunct2])
  with n have "\<exists>c. safeTruncate ?str 3 = c @ [ellipsis] \<and> prefix c ?s
                 \<and> length c = (if 0 < (3::nat) \<and> isSpace (?s ! (3 - 1)) then 3 - 1 else 3)"
    by (rule rev_mp)
  with sp have "\<exists>c. safeTruncate ?str 3 = c @ [ellipsis] \<and> prefix c ?s \<and> length c = 2"
    by simp
  with n sp show ?thesis by (intro conjI)
qed

end
